theory Spec2Isabelle
  imports Main "HOL-Library.Sublist"
begin

section \<open>Strings and paths (Go standard library, Unix build)\<close>

text \<open>
  Go strings are byte sequences; they are modelled as \<^typ>\<open>string\<close> (a list of 8-bit
  characters).  The functions of this section belong to the Go standard library
  (packages \<^verbatim>\<open>strings\<close> and \<^verbatim>\<open>path/filepath\<close>), which the repository calls
  but does not contain; they are written from the library's documented behaviour on a
  Unix system, where the path separator is the slash and a path has no volume name.
\<close>

definition sep :: char where
  "sep = CHR ''/''"

definition backslash :: char where
  "backslash = CHR 0x5C"

definition nul :: char where
  "nul = CHR 0x00"

definition HasPrefix :: "string \<Rightarrow> string \<Rightarrow> bool" where
  "HasPrefix s p = (length p \<le> length s \<and> take (length p) s = p)"

definition HasSuffix :: "string \<Rightarrow> string \<Rightarrow> bool" where
  "HasSuffix s p = (length p \<le> length s \<and> drop (length s - length p) s = p)"

definition TrimPrefix :: "string \<Rightarrow> string \<Rightarrow> string" where
  "TrimPrefix s p = (if HasPrefix s p then drop (length p) s else s)"

fun Contains :: "string \<Rightarrow> string \<Rightarrow> bool" where
  "Contains [] sub = (sub = [])"
| "Contains (x # xs) sub = (HasPrefix (x # xs) sub \<or> Contains xs sub)"

text \<open>\<^verbatim>\<open>strings.Split(s, "/")\<close>: the pieces between the separators, one more than
  there are separators.\<close>

fun Split :: "string \<Rightarrow> char \<Rightarrow> string list" where
  "Split [] c = [[]]"
| "Split (x # xs) c =
     (if x = c then [] # Split xs c
      else (case Split xs c of
              [] \<Rightarrow> [[x]]
            | piece # pieces \<Rightarrow> (x # piece) # pieces))"

text \<open>\<^verbatim>\<open>strings.Join(elems, "/")\<close>.\<close>

fun strings_Join :: "string list \<Rightarrow> string" where
  "strings_Join [] = []"
| "strings_Join [e] = e"
| "strings_Join (e # es) = e @ sep # strings_Join es"

text \<open>\<^verbatim>\<open>filepath.ToSlash\<close> and \<^verbatim>\<open>filepath.FromSlash\<close> replace the separator by a
  slash and back; with the slash as separator both return their argument.\<close>

definition ToSlash :: "string \<Rightarrow> string" where
  "ToSlash p = p"

definition FromSlash :: "string \<Rightarrow> string" where
  "FromSlash p = p"

definition IsAbs :: "string \<Rightarrow> bool" where
  "IsAbs p = HasPrefix p [sep]"

text \<open>
  \<^verbatim>\<open>filepath.Clean\<close> works through the path elements from left to right: an empty
  element and \<^verbatim>\<open>.\<close> are dropped; \<^verbatim>\<open>..\<close> removes the element before it when
  that is a real element, is dropped at the root of a rooted path, and is kept at the
  start of a relative path.  \<open>out\<close> is what has been written so far.
\<close>

fun clean_elems :: "bool \<Rightarrow> string list \<Rightarrow> string list \<Rightarrow> string list" where
  "clean_elems rooted out [] = out"
| "clean_elems rooted out (e # es) =
     (if e = [] \<or> e = ''.'' then clean_elems rooted out es
      else if e = ''..'' then
        (if out \<noteq> [] \<and> last out \<noteq> ''..'' then clean_elems rooted (butlast out) es
         else if \<not> rooted then clean_elems rooted (out @ [''..'']) es
         else clean_elems rooted out es)
      else clean_elems rooted (out @ [e]) es)"

definition Clean :: "string \<Rightarrow> string" where
  "Clean path =
     (if path = [] then ''.''
      else
        let rooted = (hd path = sep);
            elems = Split (if rooted then tl path else path) sep;
            out = clean_elems rooted [] elems;
            s = (if rooted then [sep] else []) @ strings_Join out
        in if s = [] then ''.'' else s)"

text \<open>\<^verbatim>\<open>filepath.Join\<close> ignores leading empty elements, joins the rest with the
  separator and cleans the result; with nothing left it is the empty string.\<close>

definition filepath_Join :: "string list \<Rightarrow> string" where
  "filepath_Join elem =
     (case dropWhile (\<lambda>e. e = []) elem of
        [] \<Rightarrow> []
      | es \<Rightarrow> Clean (strings_Join es))"

text \<open>\<^verbatim>\<open>filepath.Base\<close>: the last element of the path, after removing trailing
  slashes; \<^verbatim>\<open>.\<close> for the empty path and a single slash for a path of slashes.\<close>

definition Base :: "string \<Rightarrow> string" where
  "Base path =
     (if path = [] then ''.''
      else
        let p = rev (dropWhile (\<lambda>c. c = sep) (rev path));
            b = rev (takeWhile (\<lambda>c. c \<noteq> sep) (rev p))
        in if b = [] then [sep] else b)"

text \<open>
  \<^verbatim>\<open>filepath.Abs\<close>: a rooted path is cleaned; any other path is joined to the working
  directory, and the call fails when the working directory cannot be read.  The result
  of \<^verbatim>\<open>os.Getwd\<close> is the parameter \<open>getwd\<close>.
\<close>

type_synonym error = string

definition Abs :: "error + string \<Rightarrow> string \<Rightarrow> error + string" where
  "Abs getwd path =
     (if IsAbs path then Inr (Clean path)
      else case getwd of
             Inl err \<Rightarrow> Inl err
           | Inr wd \<Rightarrow> Inr (filepath_Join [wd, path]))"


section \<open>Watcher: ignore rules (internal/watcher/watcher.go)\<close>

text \<open>
  \<^verbatim>\<open>filepath.Match\<close> is the standard library's shell-pattern matcher.  Nothing proved
  below depends on which names a pattern matches, so the matcher is a parameter
  \<open>Match\<close> of the functions that call it: \<open>Inl\<close> is the error of a malformed
  pattern, \<open>Inr b\<close> the answer.
\<close>

type_synonym matcher = "string \<Rightarrow> string \<Rightarrow> error + bool"

text \<open>A small matcher for concrete evaluations: a star stands for any run of
  characters other than the separator, a question mark for one such character, every
  other character for itself.\<close>

fun glob :: "string \<Rightarrow> string \<Rightarrow> bool" where
  "glob [] [] = True"
| "glob [] (c # cs) = False"
| "glob (p # ps) [] = (p = CHR ''*'' \<and> glob ps [])"
| "glob (p # ps) (c # cs) =
     (if p = CHR ''*'' then glob ps (c # cs) \<or> (c \<noteq> sep \<and> glob (p # ps) cs)
      else if p = CHR ''?'' then c \<noteq> sep \<and> glob ps cs
      else p = c \<and> glob ps cs)"

definition glob_Match :: matcher where
  "glob_Match pattern name = Inr (glob pattern name)"

definition IgnoredSuffixes :: "string list" where
  "IgnoredSuffixes = [''.partial'', ''.uploading'', ''.tmp'', ''.swp'', ''.~'']"

text \<open>The loop of \<open>matchesPathPattern\<close> walks both segment lists from their last
  elements; the lists are passed reversed.\<close>

fun match_from_end :: "matcher \<Rightarrow> string list \<Rightarrow> string list \<Rightarrow> bool" where
  "match_from_end Match [] pathParts = True"
| "match_from_end Match (part # ps) [] = False"
| "match_from_end Match (part # ps) (pathPart # qs) =
     (case Match part pathPart of
        Inr True \<Rightarrow> match_from_end Match ps qs
      | _ \<Rightarrow> False)"

definition matchesPathPattern :: "matcher \<Rightarrow> string \<Rightarrow> string \<Rightarrow> bool" where
  "matchesPathPattern Match pattern path =
     (let pattern1 = TrimPrefix (ToSlash pattern) ''/'';
          path1 = TrimPrefix (ToSlash path) ''/'';
          patternParts = Split pattern1 sep;
          pathParts = Split path1 sep
      in if length patternParts > length pathParts then False
         else match_from_end Match (rev patternParts) (rev pathParts))"

text \<open>One turn of the loop over the configured patterns.\<close>

definition pattern_matches :: "matcher \<Rightarrow> string \<Rightarrow> string \<Rightarrow> string \<Rightarrow> bool" where
  "pattern_matches Match pattern path base =
     (if Contains pattern ''/'' \<or> Contains pattern [backslash]
      then matchesPathPattern Match pattern path
      else (case Match pattern base of Inr matched \<Rightarrow> matched | Inl err \<Rightarrow> False))"

fun any_pattern_matches :: "matcher \<Rightarrow> string list \<Rightarrow> string \<Rightarrow> string \<Rightarrow> bool" where
  "any_pattern_matches Match [] path base = False"
| "any_pattern_matches Match (pattern # ps) path base =
     (if pattern_matches Match pattern path base then True
      else any_pattern_matches Match ps path base)"

fun any_suffix_matches :: "string list \<Rightarrow> string \<Rightarrow> bool" where
  "any_suffix_matches [] base = False"
| "any_suffix_matches (sfx # ss) base =
     (if length base > length sfx \<and> drop (length base - length sfx) base = sfx
      then True
      else any_suffix_matches ss base)"

definition ShouldIgnore :: "matcher \<Rightarrow> string \<Rightarrow> string list \<Rightarrow> bool" where
  "ShouldIgnore Match path ignorePatterns =
     (let base = Base path
      in if base \<noteq> [] \<and> hd base = CHR ''.'' then True
         else if any_pattern_matches Match ignorePatterns path base then True
         else any_suffix_matches IgnoredSuffixes base)"

definition ShouldIgnoreLegacy :: "matcher \<Rightarrow> string \<Rightarrow> bool" where
  "ShouldIgnoreLegacy Match path = ShouldIgnore Match path []"


section \<open>Watcher: the stability prober (internal/watcher/watcher.go)\<close>

text \<open>
  A \<^verbatim>\<open>time.Duration\<close> is a signed 64-bit count of nanoseconds, and the conversion
  from milliseconds multiplies in that type.  File sizes (\<^verbatim>\<open>int64\<close>) and
  modification times are only compared, and the counter of the prober never exceeds
  the configured number of checks, so they are integers.
\<close>

definition int64 :: "int \<Rightarrow> int" where
  "int64 x = (x + 2 ^ 63) mod 2 ^ 64 - 2 ^ 63"

definition Millisecond :: int where
  "Millisecond = 1000000"

definition Second :: int where
  "Second = 1000000000"

record StabilityConfig =
  ConfirmationIntervalMs :: int
  RequiredStableChecks :: int
  MaxWaitMs :: int

definition GetConfirmationInterval :: "StabilityConfig \<Rightarrow> int" where
  "GetConfirmationInterval s = int64 (ConfirmationIntervalMs s * Millisecond)"

definition GetMaxWait :: "StabilityConfig \<Rightarrow> int" where
  "GetMaxWait s = int64 (MaxWaitMs s * Millisecond)"

record FileInfo =
  Size :: int
  ModTime :: int

text \<open>
  What the prober reads from its surroundings, turn by turn of its loop: \<open>since env i\<close>
  is the value of \<^verbatim>\<open>time.Since(start)\<close> at the head of turn \<open>i\<close> (turns count from
  0), and \<open>stat env i\<close> the result of \<^verbatim>\<open>os.Stat(path)\<close> in that turn, \<open>None\<close> for
  an error.  \<^verbatim>\<open>time.Sleep(interval)\<close> at the end of a turn changes nothing but the
  next reading of the clock; \<open>sleeps\<close> is what it guarantees.
\<close>

record probe_env =
  since :: "nat \<Rightarrow> int"
  stat :: "nat \<Rightarrow> FileInfo option"

definition sleeps :: "int \<Rightarrow> probe_env \<Rightarrow> bool" where
  "sleeps interval env = (\<forall>i. since env i + interval \<le> since env (Suc i))"

text \<open>The loop of \<open>isStable\<close>; it has no bound of its own, so a run that never
  returns is \<open>None\<close>.  The result is the pair (stable, timedOut).\<close>

partial_function (option) isStable_loop ::
  "int \<Rightarrow> int \<Rightarrow> probe_env \<Rightarrow> nat \<Rightarrow> int \<Rightarrow> int \<Rightarrow> int \<Rightarrow> (bool \<times> bool) option"
where
  "isStable_loop maxWait requiredChecks env i stableCount lastSize lastModTime =
     (if since env i > maxWait then Some (True, True)
      else case stat env i of
             None \<Rightarrow> Some (False, False)
           | Some info \<Rightarrow>
               if stableCount > 0 \<and> Size info = lastSize \<and> ModTime info = lastModTime
               then (if stableCount + 1 \<ge> requiredChecks then Some (True, False)
                     else isStable_loop maxWait requiredChecks env (Suc i)
                            (stableCount + 1) lastSize lastModTime)
               else isStable_loop maxWait requiredChecks env (Suc i)
                      1 (Size info) (ModTime info))"

definition isStable :: "StabilityConfig \<Rightarrow> probe_env \<Rightarrow> (bool \<times> bool) option" where
  "isStable cfg env =
     isStable_loop (GetMaxWait cfg) (RequiredStableChecks cfg) env 0 0 0 0"

text \<open>
  Vocabulary for the properties of the prober.  Sample \<open>i\<close> matches when it and the
  sample before it both exist and agree in size and modification time; \<open>streak env n\<close>
  is the number of consecutive matching samples that ends with sample \<open>n\<close>.
\<close>

definition same_info :: "FileInfo option \<Rightarrow> FileInfo option \<Rightarrow> bool" where
  "same_info a b =
     (case (a, b) of
        (Some x, Some y) \<Rightarrow> Size x = Size y \<and> ModTime x = ModTime y
      | _ \<Rightarrow> False)"

fun streak :: "probe_env \<Rightarrow> nat \<Rightarrow> nat" where
  "streak env 0 = 0"
| "streak env (Suc n) =
     (if same_info (stat env (Suc n)) (stat env n) then Suc (streak env n) else 0)"

text \<open>The number of consecutive matching samples after which the loop, as written,
  reports stability.\<close>

definition matches_needed :: "int \<Rightarrow> nat" where
  "matches_needed requiredChecks = max 1 (nat (requiredChecks - 1))"


text \<open>Vocabulary of the proofs about the loop.  Turn \<open>i\<close> leaves the outcome open
  when the clock has not passed the maximum wait, the file is there, and the streak is
  still short; \<open>loop_inv\<close> relates the loop variables at the head of turn \<open>i\<close> to the
  samples read before it.\<close>

definition undecided :: "int \<Rightarrow> int \<Rightarrow> probe_env \<Rightarrow> nat \<Rightarrow> bool" where
  "undecided mw req env i =
     (since env i \<le> mw \<and> stat env i \<noteq> None \<and> streak env i < matches_needed req)"

definition loop_inv :: "probe_env \<Rightarrow> nat \<Rightarrow> int \<Rightarrow> int \<Rightarrow> int \<Rightarrow> bool" where
  "loop_inv env i c ls lm =
     (case i of
        0 \<Rightarrow> c = 0
      | Suc m \<Rightarrow> c = int (streak env m) + 1 \<and>
          (\<exists>prev. stat env m = Some prev \<and> Size prev = ls \<and> ModTime prev = lm))"

text \<open>Two concrete runs.  In both the clock advances by 10 ms per turn.  In the first
  the file is the same at samples 0 and 1 and changes at every later sample, with two
  checks required and a maximum wait of 25 ms; in the second the file never changes, with
  three checks required and a maximum wait of 500 ms.\<close>

definition cfg_two_checks :: StabilityConfig where
  "cfg_two_checks = \<lparr>ConfirmationIntervalMs = 10, RequiredStableChecks = 2, MaxWaitMs = 25\<rparr>"

definition env_changing :: probe_env where
  "env_changing =
     \<lparr>since = (\<lambda>i. int i * 10000000),
      stat = (\<lambda>i. Some \<lparr>Size = (if i < 2 then 5 else int i), ModTime = 7\<rparr>)\<rparr>"

definition cfg_three_checks :: StabilityConfig where
  "cfg_three_checks =
     \<lparr>ConfirmationIntervalMs = 10, RequiredStableChecks = 3, MaxWaitMs = 500\<rparr>"

definition env_quiet :: probe_env where
  "env_quiet =
     \<lparr>since = (\<lambda>i. int i * 10000000),
      stat = (\<lambda>i. Some \<lparr>Size = 14, ModTime = 7\<rparr>)\<rparr>"


section \<open>HTTP ingest: path validation (internal/ingress/server.go)\<close>

text \<open>An error is the message the code gives it (\<^verbatim>\<open>fmt.Errorf\<close>).\<close>

definition sanitizeFilename :: "string \<Rightarrow> error + string" where
  "sanitizeFilename filename =
     (if Contains filename [nul] then Inl ''filename contains null byte''
      else if filename = [] then Inl ''filename is empty''
      else if Contains filename ''..'' then Inl ''filename contains path traversal attempt''
      else if Contains filename ''/'' \<or> Contains filename [backslash]
        then Inl ''filename contains path separator''
      else if filename = ''.'' \<or> filename = ''..'' then Inl ''invalid filename''
      else
        let cleaned = Clean filename
        in if cleaned \<noteq> filename then Inl ''filename normalization mismatch''
           else Inr filename)"

definition sanitizeSubdirectoryPath :: "string \<Rightarrow> error + string" where
  "sanitizeSubdirectoryPath subdir =
     (if Contains subdir [nul] then Inl ''path contains null byte''
      else if subdir = [] then Inl ''path is empty''
      else
        let normalized = ToSlash subdir
        in if Contains normalized ''..'' then Inl ''path contains traversal attempt''
           else if HasPrefix normalized ''/'' \<or> IsAbs subdir
             then Inl ''absolute paths not allowed''
           else
             case find (\<lambda>part. part = [] \<or> part = ''.'' \<or> part = ''..'')
                    (Split normalized sep) of
               Some part \<Rightarrow> Inl (''invalid path component: '' @ part)
             | None \<Rightarrow>
                 let cleaned = Clean normalized
                 in if Contains cleaned ''..'' \<or> HasPrefix cleaned ''/''
                      then Inl ''path normalization resulted in unsafe path''
                    else Inr (FromSlash cleaned))"

definition validateSubdirectoryPath :: "error + string \<Rightarrow> string \<Rightarrow> string \<Rightarrow> error + string" where
  "validateSubdirectoryPath getwd baseDir relativePath =
     (case Abs getwd baseDir of
        Inl err \<Rightarrow> Inl (''failed to resolve base directory: '' @ err)
      | Inr absBase \<Rightarrow>
          let finalPath = filepath_Join [absBase, relativePath]
          in case Abs getwd finalPath of
               Inl err \<Rightarrow> Inl (''failed to resolve final path: '' @ err)
             | Inr absFinal \<Rightarrow>
                 if (\<not> HasPrefix absFinal (absBase @ [sep])) \<and> (absFinal \<noteq> absBase)
                 then Inl ''path escapes base directory''
                 else Inr absFinal)"


section \<open>Shadow archiver (internal/shadow/shadow.go)\<close>

text \<open>
  A reading of \<^verbatim>\<open>time.Now()\<close>, as \<^verbatim>\<open>Format\<close> sees it: the fields of the local
  calendar date and time of day, and the nanoseconds within the second.
\<close>

record Time =
  year :: int
  month :: nat
  day :: nat
  hour :: nat
  minute :: nat
  second :: nat
  nanosecond :: nat

definition digit_char :: "nat \<Rightarrow> char" where
  "digit_char d = ''0123456789'' ! d"

text \<open>The last \<open>w\<close> decimal digits of a number, and all its decimal digits.\<close>

fun digits :: "nat \<Rightarrow> nat \<Rightarrow> string" where
  "digits 0 n = []"
| "digits (Suc w) n = digits w (n div 10) @ [digit_char (n mod 10)]"

function decimal :: "nat \<Rightarrow> string" where
  "decimal n = (if n < 10 then [digit_char n] else decimal (n div 10) @ [digit_char (n mod 10)])"
  by pat_completeness auto
termination
  by (relation "measure (\<lambda>n. n)") auto

declare decimal.simps [simp del]

text \<open>\<^verbatim>\<open>Format\<close> writes a number zero-padded to a width; a number with more
  digits is written in full, a negative one with a minus sign.\<close>

definition appendInt :: "int \<Rightarrow> nat \<Rightarrow> string" where
  "appendInt x width =
     (let u = nat \<bar>x\<bar>;
          body = (if u < 10 ^ width then digits width u else decimal u)
      in (if x < 0 then ''-'' else []) @ body)"

text \<open>\<^verbatim>\<open>Format("20060102-150405.000000")\<close>: the fraction of the second is cut off
  after six digits.\<close>

definition Format :: "Time \<Rightarrow> string" where
  "Format t =
     appendInt (year t) 4 @ appendInt (int (month t)) 2 @ appendInt (int (day t)) 2 @ ''-'' @
     appendInt (int (hour t)) 2 @ appendInt (int (minute t)) 2 @ appendInt (int (second t)) 2 @
     ''.'' @ digits 6 (nanosecond t div 1000)"

record ShadowConfig =
  Enabled :: bool
  Path :: string
  RetentionHours :: int

text \<open>The name of the archive entry (\<open>shadowName\<close> in \<open>getShadowPath\<close>) and its path.\<close>

definition shadowName :: "Time \<Rightarrow> string \<Rightarrow> string" where
  "shadowName now sourcePath = Format now @ ''-'' @ Base sourcePath"

definition getShadowPath :: "ShadowConfig \<Rightarrow> Time \<Rightarrow> string \<Rightarrow> string" where
  "getShadowPath config now sourcePath = filepath_Join [Path config, shadowName now sourcePath]"

text \<open>
  What one call of \<open>Store\<close> meets: the clock reading, and whether creating the
  directory or copying the file fails.  A copy can fail before the archive file exists
  (opening the source, creating the destination) or after (copying, syncing).
\<close>

datatype copy_failure = OpenFailed | CreateFailed | CopyFailed | SyncFailed

record store_env =
  now :: Time
  mkdir_failure :: "error option"
  copy_failure :: "copy_failure option"

text \<open>\<open>Store\<close> runs under the lock of the manager, so calls follow one another; the
  state they share is the set of paths in the archive directory.  The result is the
  error, if any, and the new set.\<close>

definition Store :: "ShadowConfig \<Rightarrow> store_env \<Rightarrow> string set \<Rightarrow> string \<Rightarrow> error option \<times> string set" where
  "Store config env archive sourcePath =
     (if \<not> Enabled config then (None, archive)
      else
        let shadowPath = getShadowPath config (now env) sourcePath
        in case mkdir_failure env of
             Some err \<Rightarrow> (Some (''failed to create shadow subdirectory: '' @ err), archive)
           | None \<Rightarrow>
               (case copy_failure env of
                  Some OpenFailed \<Rightarrow> (Some ''failed to copy to shadow'', archive)
                | Some CreateFailed \<Rightarrow> (Some ''failed to copy to shadow'', archive)
                | Some CopyFailed \<Rightarrow> (Some ''failed to copy to shadow'', insert shadowPath archive)
                | Some SyncFailed \<Rightarrow> (Some ''failed to copy to shadow'', insert shadowPath archive)
                | None \<Rightarrow> (None, insert shadowPath archive)))"

text \<open>A sequence of calls, each with what it meets and its source path, and the names
  of the entries they write.\<close>

fun Store_all :: "ShadowConfig \<Rightarrow> (store_env \<times> string) list \<Rightarrow> string set \<Rightarrow> string set" where
  "Store_all config [] archive = archive"
| "Store_all config ((env, sourcePath) # calls) archive =
     Store_all config calls (snd (Store config env archive sourcePath))"

definition store_names :: "(store_env \<times> string) list \<Rightarrow> string list" where
  "store_names calls = map (\<lambda>(env, sourcePath). shadowName (now env) sourcePath) calls"

text \<open>A reading is a calendar reading when its year has at most four digits and every
  other field at most two (the microseconds at most six); two readings agree to the
  microsecond when they differ at most below it.\<close>

definition calendar :: "Time \<Rightarrow> bool" where
  "calendar t =
     (0 \<le> year t \<and> year t \<le> 9999 \<and> month t < 100 \<and> day t < 100 \<and> hour t < 100 \<and>
      minute t < 100 \<and> second t < 100 \<and> nanosecond t < 1000000000)"

definition micros :: "Time \<Rightarrow> int \<times> nat \<times> nat \<times> nat \<times> nat \<times> nat \<times> nat" where
  "micros t = (year t, month t, day t, hour t, minute t, second t, nanosecond t div 1000)"

definition noon :: Time where
  "noon = \<lparr>year = 2025, month = 1, day = 1, hour = 12, minute = 0, second = 0,
           nanosecond = 123456100\<rparr>"


text \<open>Calls of \<open>Store\<close> that meet no failure, at a given clock reading.\<close>

definition at_time :: "Time \<Rightarrow> store_env" where
  "at_time t = \<lparr>now = t, mkdir_failure = None, copy_failure = None\<rparr>"

definition shadow_on :: ShadowConfig where
  "shadow_on = \<lparr>Enabled = True, Path = ''/var/shadow'', RetentionHours = 24\<rparr>"


section \<open>Uploader: retry loop (internal/uploader/uploader.go)\<close>

text \<open>
  What \<open>executeWithRetry\<close> meets in attempt \<open>n\<close> (attempts count from 0):
  \<open>do_result env n\<close> is the outcome of \<^verbatim>\<open>client.Do\<close>, either a transport error,
  with the answer to whether the context of the request reports an error afterwards, or
  a response with its status code and body; \<open>cancelled_before env n\<close> tells whether,
  in the \<^verbatim>\<open>select\<close> before attempt \<open>n\<close>, the context is done before the backoff
  timer fires.
\<close>

datatype attempt_result = TransportError bool | Response int string

record retry_env =
  cancelled_before :: "nat \<Rightarrow> bool"
  do_result :: "nat \<Rightarrow> attempt_result"

datatype last_error = NoError | RequestFailed | ServerError int string

datatype upload_error =
    UploadCancelled
  | ClientError int string
  | UploadFailed nat last_error
  | LocalFileError

text \<open>What the loop does that can be seen from outside: a full backoff sleep, and a
  request.\<close>

datatype retry_event = Sleep int | Do nat

definition maxRetries :: nat where
  "maxRetries = 3"

text \<open>The backoff is a \<^verbatim>\<open>time.Duration\<close>; it is doubled at most three times from one
  second, far from the range of 64 bits.\<close>

function executeWithRetry_loop ::
  "retry_env \<Rightarrow> nat \<Rightarrow> int \<Rightarrow> last_error \<Rightarrow> upload_error option \<times> retry_event list"
where
  "executeWithRetry_loop env attempt backoff lastErr =
     (if attempt \<le> maxRetries then
        (if attempt > 0 \<and> cancelled_before env attempt then (Some UploadCancelled, [])
         else
           (case do_result env attempt of
              TransportError ctxErr \<Rightarrow>
                if ctxErr
                then (Some UploadCancelled,
                      (if attempt > 0 then [Sleep backoff] else []) @ [Do attempt])
                else
                  (case executeWithRetry_loop env (Suc attempt)
                          (if attempt > 0 then backoff * 2 else backoff) RequestFailed of
                     (err, events) \<Rightarrow>
                       (err, (if attempt > 0 then [Sleep backoff] else []) @ Do attempt # events))
            | Response code body \<Rightarrow>
                if 200 \<le> code \<and> code < 300
                then (None, (if attempt > 0 then [Sleep backoff] else []) @ [Do attempt])
                else if 400 \<le> code \<and> code < 500
                then (Some (ClientError code body),
                      (if attempt > 0 then [Sleep backoff] else []) @ [Do attempt])
                else
                  (case executeWithRetry_loop env (Suc attempt)
                          (if attempt > 0 then backoff * 2 else backoff)
                          (ServerError code body) of
                     (err, events) \<Rightarrow>
                       (err, (if attempt > 0 then [Sleep backoff] else []) @ Do attempt # events))))
      else (Some (UploadFailed (maxRetries + 1) lastErr), []))"
  by pat_completeness auto
termination
  by (relation "measure (\<lambda>(env, attempt, backoff, lastErr). Suc maxRetries - attempt)") auto

declare executeWithRetry_loop.simps [simp del]

definition executeWithRetry :: "retry_env \<Rightarrow> upload_error option \<times> retry_event list" where
  "executeWithRetry env = executeWithRetry_loop env 0 Second NoError"

text \<open>
  Vocabulary for the properties of the retry loop.  An outcome is retryable when the loop
  goes on after it; attempt \<open>k\<close> is reached when every attempt before it had a retryable
  outcome and no \<^verbatim>\<open>select\<close> up to the one before attempt \<open>k\<close> saw the context done.
  \<open>full_schedule\<close> is what a run of four attempts does, \<open>schedule k\<close> its part up to
  attempt \<open>k\<close>.
\<close>

definition retryable :: "attempt_result \<Rightarrow> bool" where
  "retryable r =
     (case r of
        TransportError ctxErr \<Rightarrow> \<not> ctxErr
      | Response code body \<Rightarrow> \<not> (200 \<le> code \<and> code < 300) \<and> \<not> (400 \<le> code \<and> code < 500))"

definition cause :: "attempt_result \<Rightarrow> last_error" where
  "cause r = (case r of TransportError ctxErr \<Rightarrow> RequestFailed
                      | Response code body \<Rightarrow> ServerError code body)"

definition reaches :: "retry_env \<Rightarrow> nat \<Rightarrow> bool" where
  "reaches env k = (\<forall>j<k. retryable (do_result env j) \<and> \<not> cancelled_before env (Suc j))"

definition full_schedule :: "retry_event list" where
  "full_schedule =
     [Do 0, Sleep Second, Do 1, Sleep (2 * Second), Do 2, Sleep (4 * Second), Do 3]"

definition schedule :: "nat \<Rightarrow> retry_event list" where
  "schedule k = take (2 * k + 1) full_schedule"

fun is_Do :: "retry_event \<Rightarrow> bool" where
  "is_Do (Do n) = True"
| "is_Do (Sleep d) = False"

text \<open>The backoff on entry to turn \<open>k\<close> of the loop, and what follows the request of an
  attempt, given the result \<open>rest\<close> of the turns after it.\<close>

definition backoff_at :: "nat \<Rightarrow> int" where
  "backoff_at k = Second * 2 ^ (k - 1)"

definition after_do ::
  "attempt_result \<Rightarrow> nat \<Rightarrow> upload_error option \<times> retry_event list
     \<Rightarrow> upload_error option \<times> retry_event list" where
  "after_do r attempt rest =
     (case r of
        TransportError ctxErr \<Rightarrow>
          if ctxErr then (Some UploadCancelled, [Do attempt])
          else (fst rest, Do attempt # snd rest)
      | Response code body \<Rightarrow>
          if 200 \<le> code \<and> code < 300 then (None, [Do attempt])
          else if 400 \<le> code \<and> code < 500 then (Some (ClientError code body), [Do attempt])
          else (fst rest, Do attempt # snd rest))"

definition retry_env_of :: "attempt_result list \<Rightarrow> retry_env" where
  "retry_env_of rs =
     \<lparr>cancelled_before = (\<lambda>n. False),
      do_result = (\<lambda>n. if n < length rs then rs ! n else Response 500 [])\<rparr>"


section \<open>Uploader: dispatcher and workers (internal/uploader/uploader.go)\<close>

record fileEvent =
  event_path :: string
  processedDueToTimeout :: bool

text \<open>
  A \<^verbatim>\<open>select\<close> statement: \<open>ready\<close> are the cases that can proceed, in the order of
  the source; when there are several, one is chosen pseudo-randomly, here by the number
  \<open>pick\<close>; when there is none, the default case runs if the statement has one, and
  otherwise the statement blocks.
\<close>

datatype 'a selected = Chosen 'a | Default | Blocked

definition select :: "'a list \<Rightarrow> nat \<Rightarrow> bool \<Rightarrow> 'a selected" where
  "select ready pick has_default =
     (if ready = [] then (if has_default then Default else Blocked)
      else Chosen (ready ! (pick mod length ready)))"








datatype 'a outcome = Panic string | Blocks | Returns 'a







text \<open>
  What a worker meets while it handles one job: the three results of \<^verbatim>\<open>os.Stat\<close> on
  the source (before the upload, before the shadow copy, before the deletion), the
  result of the upload, what the call of \<open>Store\<close> meets, and whether \<^verbatim>\<open>os.Remove\<close>
  fails.
\<close>

record job_env =
  stat_for_upload :: "FileInfo option"
  upload_result :: "upload_error option"
  stat_before_shadow :: "FileInfo option"
  shadow_call :: store_env
  stat_before_delete :: "FileInfo option"
  remove_failure :: "error option"

text \<open>What a worker does with a job, in order.\<close>

datatype worker_action =
    UploadBuffered string
  | UploadStreamed string
  | OnSuccessfulUpload string
  | KeepSource string
  | RemoveSource string
  | Log string

text \<open>
  The body of the loop of \<open>worker\<close> for one job.  The state is the set of source paths
  that exist and the set of paths in the archive; the result is the list of actions and
  the new state.
\<close>

definition worker_job ::
  "ShadowConfig \<Rightarrow> bool \<Rightarrow> job_env \<Rightarrow> fileEvent \<Rightarrow> string set \<times> string set
     \<Rightarrow> worker_action list \<times> string set \<times> string set" where
  "worker_job shadow callback env event state =
     (let filePath = event_path event; sources = fst state; archive = snd state
      in case stat_for_upload env of
           None \<Rightarrow> ([Log ''failed to stat''], sources, archive)
         | Some fileInfo \<Rightarrow>
             let upload = (if Size fileInfo > 100 * 1024 * 1024
                           then UploadStreamed filePath else UploadBuffered filePath)
             in case upload_result env of
                  Some err \<Rightarrow> ([upload, Log ''upload failed''], sources, archive)
                | None \<Rightarrow>
                    let finished = [upload, Log ''upload completed''] @
                               (if callback then [OnSuccessfulUpload filePath] else [])
                    in if processedDueToTimeout event
                       then (finished @ [KeepSource ''processed due to stability timeout''],
                             sources, archive)
                       else
                         case stat_before_shadow env of
                           None \<Rightarrow> (finished @ [KeepSource ''stat failure''], sources, archive)
                         | Some info \<Rightarrow>
                             (case Store shadow (shadow_call env) archive filePath of
                                (Some err, archive') \<Rightarrow>
                                  (finished @ [KeepSource ''shadow copy failure''], sources, archive')
                              | (None, archive') \<Rightarrow>
                                  (case stat_before_delete env of
                                     None \<Rightarrow>
                                       (finished @ [Log ''file disappeared before deletion check''],
                                        sources, archive')
                                   | Some info' \<Rightarrow>
                                       if Size info' \<noteq> Size info \<or> ModTime info' \<noteq> ModTime info
                                       then (finished @ [KeepSource ''file changed during processing''],
                                             sources, archive')
                                       else
                                         (case remove_failure env of
                                            Some err \<Rightarrow>
                                              (finished @ [RemoveSource filePath,
                                                       Log ''failed to delete source file''],
                                               sources, archive')
                                          | None \<Rightarrow>
                                              (finished @ [RemoveSource filePath,
                                                       Log ''deleted source file''],
                                               sources - {filePath}, archive')))))"

text \<open>A job that meets no failure: the file is the same at every look.\<close>

definition quiet_job :: job_env where
  "quiet_job =
     \<lparr>stat_for_upload = Some \<lparr>Size = 5, ModTime = 7\<rparr>,
      upload_result = None,
      stat_before_shadow = Some \<lparr>Size = 5, ModTime = 7\<rparr>,
      shadow_call = at_time noon,
      stat_before_delete = Some \<lparr>Size = 5, ModTime = 7\<rparr>,
      remove_failure = None\<rparr>"

definition shadow_off :: ShadowConfig where
  "shadow_off = \<lparr>Enabled = False, Path = [], RetentionHours = 0\<rparr>"


text \<open>The four conditions of the deletion: the upload succeeded, the job is not flagged
  as processed on a stability timeout, the shadow copy succeeded, and the file has the
  size and modification time before the deletion that it had before the shadow copy.\<close>

definition may_delete :: "ShadowConfig \<Rightarrow> job_env \<Rightarrow> fileEvent \<Rightarrow> string set \<Rightarrow> bool" where
  "may_delete shadow env event archive =
     (upload_result env = None
      \<and> \<not> processedDueToTimeout event
      \<and> fst (Store shadow (shadow_call env) archive (event_path event)) = None
      \<and> (\<exists>info info'. stat_before_shadow env = Some info \<and> stat_before_delete env = Some info'
            \<and> Size info' = Size info \<and> ModTime info' = ModTime info))"




section \<open>HTTP ingest: the upload handler (internal/ingress/server.go)\<close>

record DirectoryConfig =
  Name :: string
  WatchPath :: string
  IngestPath :: string

definition GetIngestPath :: "DirectoryConfig \<Rightarrow> string" where
  "GetIngestPath d = (if IngestPath d \<noteq> [] then IngestPath d else WatchPath d)"

record Server =
  directories :: "string \<rightharpoonup> DirectoryConfig"
  TempDir :: string

text \<open>
  A request as the handler reads it: the method, the path of the URL, the error of
  \<^verbatim>\<open>ParseMultipartForm\<close> if any, and the result of \<^verbatim>\<open>FormFile("file")\<close>, an error or
  the submitted file name with the content of the part.
\<close>

record Request =
  Method :: string
  URLPath :: string
  parse_error :: "error option"
  form_file :: "error + string \<times> string"

text \<open>
  What the handler meets in the file system: the working directory, and which of its
  operations fail.  A copy that fails has written some bytes of the content before.
  The files are a map from paths to contents.
\<close>

record io_env =
  working_directory :: "error + string"
  mkdirall_error :: "error option"
  create_error :: "error option"
  copy_error :: "(nat \<times> error) option"
  sync_error :: "error option"
  rename_error :: "error option"
  remove_error :: "error option"

type_synonym files = "string \<rightharpoonup> string"

definition streamToFile :: "io_env \<Rightarrow> files \<Rightarrow> string \<Rightarrow> string \<Rightarrow> error option \<times> files" where
  "streamToFile io fs src destPath =
     (case create_error io of
        Some err \<Rightarrow> (Some (''failed to create file: '' @ err), fs)
      | None \<Rightarrow>
          (case copy_error io of
             Some (written, err) \<Rightarrow>
               (Some (''failed to copy data: '' @ err), fs(destPath \<mapsto> take written src))
           | None \<Rightarrow>
               (case sync_error io of
                  Some err \<Rightarrow> (Some (''failed to sync file: '' @ err), fs(destPath \<mapsto> src))
                | None \<Rightarrow> (None, fs(destPath \<mapsto> src)))))"

text \<open>\<^verbatim>\<open>http.Error\<close> answers with the status and the message on a line.\<close>

definition http_Error :: "string \<Rightarrow> nat \<Rightarrow> nat \<times> string" where
  "http_Error msg code = (code, msg @ [CHR 0x0A])"

text \<open>\<^verbatim>\<open>os.Remove\<close> and \<^verbatim>\<open>os.Rename\<close> on the map of files.\<close>

definition os_Remove :: "io_env \<Rightarrow> files \<Rightarrow> string \<Rightarrow> files" where
  "os_Remove io fs name = (case remove_error io of Some err \<Rightarrow> fs | None \<Rightarrow> fs(name := None))"

definition os_Rename :: "files \<Rightarrow> string \<Rightarrow> string \<Rightarrow> files" where
  "os_Rename fs oldpath newpath = (fs(newpath := fs oldpath))(oldpath := None)"

text \<open>
  The handler returns its response, status and body, and the files afterwards.  The
  slice \<^verbatim>\<open>r.URL.Path[len("/upload/"):]\<close> panics on a shorter path.
\<close>

definition handleUpload ::
  "Server \<Rightarrow> io_env \<Rightarrow> Request \<Rightarrow> files \<Rightarrow> (nat \<times> string) outcome \<times> files" where
  "handleUpload s io r fs =
     (if Method r \<noteq> ''POST'' then (Returns (http_Error ''Method not allowed'' 405), fs)
      else if length (URLPath r) < length ''/upload/''
        then (Panic ''slice bounds out of range'', fs)
      else
        let uploadPath = drop (length ''/upload/'') (URLPath r)
        in if uploadPath = [] then (Returns (http_Error ''Directory name required'' 400), fs)
           else
             let dirName = takeWhile (\<lambda>c. c \<noteq> sep) uploadPath;
                 subdirPath = drop (Suc (length dirName)) uploadPath
             in case directories s dirName of
                  None \<Rightarrow> (Returns (http_Error ''Unknown directory'' 404), fs)
                | Some dirConfig \<Rightarrow>
                    (case parse_error r of
                       Some err \<Rightarrow> (Returns (http_Error (''Failed to parse form: '' @ err) 400), fs)
                     | None \<Rightarrow>
                         (case form_file r of
                            Inl err \<Rightarrow>
                              (Returns (http_Error (''Failed to get file: '' @ err) 400), fs)
                          | Inr (filename, content) \<Rightarrow>
                              if filename = []
                              then (Returns (http_Error ''Filename is required'' 400), fs)
                              else
                                (case sanitizeFilename filename of
                                   Inl err \<Rightarrow>
                                     (Returns (http_Error (''Invalid filename: '' @ err) 400), fs)
                                 | Inr safeFilename \<Rightarrow>
                                     (case (if subdirPath \<noteq> []
                                            then (case sanitizeSubdirectoryPath subdirPath of
                                                    Inl err \<Rightarrow> Inl err
                                                  | Inr safeSubdir \<Rightarrow>
                                                      Inr (filepath_Join [safeSubdir, safeFilename]))
                                            else Inr safeFilename) of
                                        Inl err \<Rightarrow>
                                          (Returns (http_Error
                                             (''Invalid subdirectory path: '' @ err) 400), fs)
                                      | Inr targetRelPath \<Rightarrow>
                                          (case validateSubdirectoryPath (working_directory io)
                                                  (GetIngestPath dirConfig) targetRelPath of
                                             Inl err \<Rightarrow>
                                               (Returns (http_Error
                                                  (''Invalid path: '' @ err) 400), fs)
                                           | Inr finalPath \<Rightarrow>
                                               (case mkdirall_error io of
                                                  Some err \<Rightarrow>
                                                    (Returns (http_Error
                                                       (''Failed to create directory: '' @ err) 500),
                                                     fs)
                                                | None \<Rightarrow>
                                                    let tempPath = filepath_Join
                                                          [TempDir s, Base safeFilename @ ''.partial'']
                                                    in case streamToFile io fs content tempPath of
                                                         (Some err, fs') \<Rightarrow>
                                                           (Returns (http_Error
                                                              (''Failed to write file: '' @ err) 500),
                                                            fs')
                                                       | (None, fs') \<Rightarrow>
                                                           (case rename_error io of
                                                              Some err \<Rightarrow>
                                                                (Returns (http_Error
                                                                   (''Failed to finalize file: '' @ err)
                                                                   500),
                                                                 os_Remove io fs' tempPath)
                                                            | None \<Rightarrow>
                                                                (Returns (200,
                                                                   ''Upload successful: '' @ safeFilename
                                                                     @ [CHR 0x0A]),
                                                                 os_Rename fs' tempPath finalPath)))))))))"

text \<open>A server with one directory, a request for it, and a file system without
  failures.\<close>

definition invoices_server :: Server where
  "invoices_server =
     \<lparr>directories = [''invoices'' \<mapsto>
        \<lparr>Name = ''invoices'', WatchPath = ''/data/invoices'', IngestPath = []\<rparr>],
      TempDir = ''/tmp/xferd''\<rparr>"

definition post_a_txt :: Request where
  "post_a_txt =
     \<lparr>Method = ''POST'', URLPath = ''/upload/invoices'', parse_error = None,
      form_file = Inr (''a.txt'', ''hello'')\<rparr>"

definition io_ok :: io_env where
  "io_ok =
     \<lparr>working_directory = Inr ''/srv'', mkdirall_error = None, create_error = None, copy_error = None,
      sync_error = None, rename_error = None, remove_error = None\<rparr>"


text \<open>A real path element: not empty, neither \<^verbatim>\<open>.\<close> nor \<^verbatim>\<open>..\<close>, and without a
  separator.\<close>

definition normal :: "string \<Rightarrow> bool" where
  "normal e = (e \<noteq> [] \<and> e \<noteq> ''.'' \<and> e \<noteq> ''..'' \<and> sep \<notin> set e)"


section \<open>Properties of the ignore rules\<close>

lemma any_suffix_matches_iff:
  "any_suffix_matches ss base =
     (\<exists>s \<in> set ss. length base > length s \<and> drop (length base - length s) base = s)"
  by (induction ss) auto

lemma any_pattern_matches_iff:
  "any_pattern_matches Match ps path base = (\<exists>p \<in> set ps. pattern_matches Match p path base)"
  by (induction ps) auto

lemma legacy_suffix_dot:
  "s \<in> set IgnoredSuffixes \<Longrightarrow> s \<noteq> [] \<and> hd s = CHR ''.''"
  by (auto simp: IgnoredSuffixes_def)

lemma HasSuffix_same_length:
  "HasSuffix b s \<Longrightarrow> length b = length s \<Longrightarrow> b = s"
  by (simp add: HasSuffix_def)

text \<open>
  Claim C6.  Whatever the configured patterns (and whatever the pattern matcher
  answers), \<open>ShouldIgnore\<close> returns true for a path whose basename starts with a dot
  or ends with one of the legacy suffixes \<^verbatim>\<open>.partial\<close>, \<^verbatim>\<open>.uploading\<close>,
  \<^verbatim>\<open>.tmp\<close>, \<^verbatim>\<open>.swp\<close>, \<^verbatim>\<open>.~\<close>.
\<close>

theorem ShouldIgnore_hidden_or_legacy:
  assumes "HasPrefix (Base path) ''.'' \<or> (\<exists>s \<in> set IgnoredSuffixes. HasSuffix (Base path) s)"
  shows "ShouldIgnore Match path ignorePatterns"
proof (cases "Base path \<noteq> [] \<and> hd (Base path) = CHR ''.''")
  case True
  then show ?thesis by (simp add: ShouldIgnore_def)
next
  case notdot: False
  have "\<not> HasPrefix (Base path) ''.''"
    using notdot by (cases "Base path") (auto simp: HasPrefix_def)
  with assms obtain s where s: "s \<in> set IgnoredSuffixes" "HasSuffix (Base path) s"
    by blast
  have "length (Base path) \<noteq> length s"
  proof
    assume "length (Base path) = length s"
    with s(2) have "Base path = s" by (rule HasSuffix_same_length)
    with legacy_suffix_dot [OF s(1)] notdot show False by simp
  qed
  with s(2) have "length (Base path) > length s"
    "drop (length (Base path) - length s) (Base path) = s"
    by (auto simp: HasSuffix_def)
  with s(1) have "any_suffix_matches IgnoredSuffixes (Base path)"
    unfolding any_suffix_matches_iff by blast
  then show ?thesis by (auto simp: ShouldIgnore_def Let_def)
qed

theorem ShouldIgnore_hidden_or_legacy_witness:
  "ShouldIgnore glob_Match ''/tmp/.hidden'' [''*.log'']
   \<and> ShouldIgnore glob_Match ''/data/in/report.partial'' [''*.log'']
   \<and> HasPrefix (Base ''/tmp/.hidden'') ''.''
   \<and> HasSuffix (Base ''/data/in/report.partial'') ''.partial''"
proof -
  have a: "HasPrefix (Base ''/tmp/.hidden'') ''.''"
    by (simp add: HasPrefix_def Base_def sep_def)
  have b: "HasSuffix (Base ''/data/in/report.partial'') ''.partial''"
    by (simp add: HasSuffix_def Base_def sep_def)
  have c: "''.partial'' \<in> set IgnoredSuffixes"
    by (simp add: IgnoredSuffixes_def)
  show ?thesis
    using ShouldIgnore_hidden_or_legacy [of "''/tmp/.hidden''" glob_Match "[''*.log'']"]
      ShouldIgnore_hidden_or_legacy [of "''/data/in/report.partial''" glob_Match "[''*.log'']"]
      a b c by blast
qed

text \<open>
  Claim C10.  The hidden-file rule looks at the basename only: a path whose basename
  does not start with a dot and ends with no legacy suffix, and which no configured
  pattern matches, is not ignored, whatever its directory components are.  The
  witness is a file inside a hidden directory.
\<close>

theorem ShouldIgnore_basename_only:
  assumes "\<not> HasPrefix (Base path) ''.''"
    and "\<forall>s \<in> set IgnoredSuffixes. \<not> HasSuffix (Base path) s"
    and "\<forall>p \<in> set ignorePatterns. \<not> pattern_matches Match p path (Base path)"
  shows "ShouldIgnore Match path ignorePatterns = False"
proof -
  have 1: "\<not> (Base path \<noteq> [] \<and> hd (Base path) = CHR ''.'')"
    using assms(1) by (cases "Base path") (auto simp: HasPrefix_def)
  have 2: "\<not> any_pattern_matches Match ignorePatterns path (Base path)"
    using assms(3) by (simp add: any_pattern_matches_iff)
  have 3: "\<not> any_suffix_matches IgnoredSuffixes (Base path)"
    using assms(2) by (auto simp: any_suffix_matches_iff HasSuffix_def)
  from 1 2 3 show ?thesis by (simp add: ShouldIgnore_def Let_def)
qed

theorem ShouldIgnore_basename_only_witness:
  "ShouldIgnore glob_Match ''/tmp/.hidden/file.txt'' [''*.log'', ''*/cache/*''] = False
   \<and> HasPrefix ''.hidden'' ''.''
   \<and> Split ''/tmp/.hidden/file.txt'' sep = ['''', ''tmp'', ''.hidden'', ''file.txt'']"
proof -
  have b: "Base ''/tmp/.hidden/file.txt'' = ''file.txt''"
    by (simp add: Base_def sep_def)
  have 1: "\<not> HasPrefix (Base ''/tmp/.hidden/file.txt'') ''.''"
    unfolding b by (simp add: HasPrefix_def)
  have 2: "\<forall>s \<in> set IgnoredSuffixes. \<not> HasSuffix (Base ''/tmp/.hidden/file.txt'') s"
    unfolding b by (simp add: IgnoredSuffixes_def HasSuffix_def)
  have 3: "\<forall>p \<in> set [''*.log'', ''*/cache/*''].
      \<not> pattern_matches glob_Match p ''/tmp/.hidden/file.txt'' (Base ''/tmp/.hidden/file.txt'')"
    unfolding b
    by (simp add: pattern_matches_def matchesPathPattern_def glob_Match_def HasPrefix_def
        TrimPrefix_def ToSlash_def sep_def backslash_def)
  have 4: "HasPrefix ''.hidden'' ''.''" by (simp add: HasPrefix_def)
  have 5: "Split ''/tmp/.hidden/file.txt'' sep = ['''', ''tmp'', ''.hidden'', ''file.txt'']"
    by (simp add: sep_def)
  from ShouldIgnore_basename_only [OF 1 2 3] 4 5 show ?thesis by simp
qed


section \<open>Properties of the ingest path validation\<close>

text \<open>
  Claim C9.  \<open>sanitizeFilename\<close> only accepts or rejects: whenever it returns
  without an error, the string it returns is the string it was given.
\<close>

theorem sanitizeFilename_identity:
  assumes "sanitizeFilename filename = Inr safeFilename"
  shows "safeFilename = filename"
  using assms by (auto simp: sanitizeFilename_def Let_def split: if_splits)

theorem sanitizeFilename_identity_witness:
  "sanitizeFilename ''report 2025.pdf'' = Inr ''report 2025.pdf''"
proof -
  have ok: "sanitizeFilename ''report 2025.pdf'' = Inr ''report 2025.pdf''"
    by (simp add: sanitizeFilename_def Clean_def HasPrefix_def sep_def nul_def backslash_def)
  from sanitizeFilename_identity [OF ok] ok show ?thesis by simp
qed


section \<open>Properties of the stability prober\<close>

lemma loop_step_first:
  assumes "undecided mw req env 0"
  shows "isStable_loop mw req env 0 0 0 0 =
         isStable_loop mw req env (Suc 0) 1 (Size (the (stat env 0))) (ModTime (the (stat env 0)))"
  using assms by (subst isStable_loop.simps) (auto simp: undecided_def)

lemma loop_step_next:
  assumes "undecided mw req env (Suc n)" and "stat env n = Some prev"
  shows "isStable_loop mw req env (Suc n) (int (streak env n) + 1) (Size prev) (ModTime prev) =
         isStable_loop mw req env (Suc (Suc n)) (int (streak env (Suc n)) + 1)
           (Size (the (stat env (Suc n)))) (ModTime (the (stat env (Suc n))))"
proof -
  from assms(1) obtain info where info: "stat env (Suc n) = Some info"
    by (auto simp: undecided_def)
  from assms(1) have le: "since env (Suc n) \<le> mw"
    and small: "streak env (Suc n) < matches_needed req"
    by (auto simp: undecided_def)
  show ?thesis
  proof (cases "Size info = Size prev \<and> ModTime info = ModTime prev")
    case True
    then have st: "streak env (Suc n) = Suc (streak env n)"
      using info assms(2) by (simp add: same_info_def)
    with small have "\<not> req \<le> int (streak env n) + 1 + 1"
      by (auto simp: matches_needed_def max_def split: if_splits)
    then show ?thesis
      using True info le st by (subst isStable_loop.simps) simp
  next
    case False
    then have st: "streak env (Suc n) = 0"
      using info assms(2) by (auto simp: same_info_def)
    show ?thesis
      using False info le st by (subst isStable_loop.simps) auto
  qed
qed

lemma loop_run:
  assumes "\<forall>i\<le>n. undecided mw req env i"
  shows "isStable_loop mw req env 0 0 0 0 =
         isStable_loop mw req env (Suc n) (int (streak env n) + 1)
           (Size (the (stat env n))) (ModTime (the (stat env n)))"
  using assms
proof (induction n)
  case 0
  then show ?case by (simp add: loop_step_first)
next
  case (Suc n)
  then have u: "undecided mw req env (Suc n)" and "undecided mw req env n" by auto
  then obtain prev where prev: "stat env n = Some prev" by (auto simp: undecided_def)
  from Suc have "isStable_loop mw req env 0 0 0 0 =
         isStable_loop mw req env (Suc n) (int (streak env n) + 1) (Size prev) (ModTime prev)"
    using prev by simp
  also have "\<dots> = isStable_loop mw req env (Suc (Suc n)) (int (streak env (Suc n)) + 1)
           (Size (the (stat env (Suc n)))) (ModTime (the (stat env (Suc n))))"
    by (rule loop_step_next [OF u prev])
  finally show ?case .
qed

text \<open>What the loop does at the first turn that decides.\<close>

lemma loop_decides:
  assumes before: "\<forall>i<n. undecided mw req env i" and now: "\<not> undecided mw req env n"
  shows "isStable_loop mw req env 0 0 0 0 =
           (if since env n > mw then Some (True, True)
            else if stat env n = None then Some (False, False)
            else Some (True, False))"
proof (cases n)
  case 0
  then have "since env 0 > mw \<or> stat env 0 = None"
    using now by (auto simp: undecided_def matches_needed_def)
  then show ?thesis
    unfolding 0 by (subst isStable_loop.simps) auto
next
  case (Suc m)
  from before Suc have run: "\<forall>i\<le>m. undecided mw req env i" by auto
  then have "undecided mw req env m" by simp
  then obtain prev where prev: "stat env m = Some prev" by (auto simp: undecided_def)
  have eq: "isStable_loop mw req env 0 0 0 0 =
         isStable_loop mw req env (Suc m) (int (streak env m) + 1) (Size prev) (ModTime prev)"
    using loop_run [OF run] prev by simp
  show ?thesis
  proof (cases "since env n > mw \<or> stat env n = None")
    case True
    then show ?thesis
      unfolding eq Suc by (subst isStable_loop.simps) auto
  next
    case False
    then obtain info where info: "stat env (Suc m) = Some info" and le: "since env (Suc m) \<le> mw"
      using Suc by auto
    from False now Suc have big: "streak env (Suc m) \<ge> matches_needed req"
      by (auto simp: undecided_def)
    then have "streak env (Suc m) > 0" by (simp add: matches_needed_def)
    then have same: "Size info = Size prev \<and> ModTime info = ModTime prev"
      and st: "streak env (Suc m) = Suc (streak env m)"
      using info prev by (auto simp: same_info_def split: if_splits)
    from big st have "req \<le> int (streak env m) + 1 + 1"
      by (auto simp: matches_needed_def)
    then show ?thesis
      unfolding eq using same info le False Suc
      by (subst isStable_loop.simps) auto
  qed
qed


lemma loop_returns_decides:
  assumes "isStable_loop mw req env i c ls lm = Some r"
  shows "loop_inv env i c ls lm \<longrightarrow> (\<exists>n\<ge>i. \<not> undecided mw req env n)"
  using assms
proof (induction rule: isStable_loop.raw_induct [rotated, consumes 1, case_names step])
  case (step f mw req env i c ls lm r)
  note 1 = step
  show ?case
  proof
    assume inv: "loop_inv env i c ls lm"
    show "\<exists>n\<ge>i. \<not> undecided mw req env n"
    proof (cases "undecided mw req env i")
      case False
      then show ?thesis by blast
    next
      case und: True
      then obtain info where info: "stat env i = Some info" and le: "since env i \<le> mw"
        and small: "streak env i < matches_needed req"
        by (auto simp: undecided_def)
      have "\<exists>c' ls' lm'. f mw req env (Suc i) c' ls' lm' = Some r \<and> loop_inv env (Suc i) c' ls' lm'"
      proof (cases i)
        case 0
        with inv have "c = 0" by (simp add: loop_inv_def)
        with 1(2) info le 0 have "f mw req env (Suc 0) 1 (Size info) (ModTime info) = Some r"
          by simp
        moreover have "loop_inv env (Suc 0) 1 (Size info) (ModTime info)"
          using info 0 by (simp add: loop_inv_def)
        ultimately show ?thesis using 0 by blast
      next
        case (Suc m)
        with inv obtain prev where c: "c = int (streak env m) + 1"
          and prev: "stat env m = Some prev" "Size prev = ls" "ModTime prev = lm"
          by (auto simp: loop_inv_def)
        show ?thesis
        proof (cases "Size info = ls \<and> ModTime info = lm")
          case True
          then have st: "streak env (Suc m) = Suc (streak env m)"
            using info prev Suc by (simp add: same_info_def)
          with small Suc have "\<not> req \<le> c + 1"
            using c by (auto simp: matches_needed_def max_def split: if_splits)
          with 1(2) info le True c have "f mw req env (Suc i) (c + 1) ls lm = Some r"
            by simp
          moreover have "loop_inv env (Suc i) (c + 1) ls lm"
            using info True st c Suc by (simp add: loop_inv_def)
          ultimately show ?thesis by blast
        next
          case False
          then have st: "streak env (Suc m) = 0"
            using info prev Suc by (auto simp: same_info_def)
          from 1(2) info le False have "f mw req env (Suc i) 1 (Size info) (ModTime info) = Some r"
            by auto
          moreover have "loop_inv env (Suc i) 1 (Size info) (ModTime info)"
            using info st Suc by (simp add: loop_inv_def)
          ultimately show ?thesis by blast
        qed
      qed
      then obtain c' ls' lm' where "f mw req env (Suc i) c' ls' lm' = Some r"
        "loop_inv env (Suc i) c' ls' lm'" by blast
      with 1(1) obtain n where "n \<ge> Suc i" "\<not> undecided mw req env n" by blast
      then show ?thesis by (meson Suc_leD)
    qed
  qed
qed

lemma isStable_some_decides:
  assumes "isStable_loop mw req env 0 0 0 0 = Some r"
  shows "\<exists>n. (\<forall>i<n. undecided mw req env i) \<and> \<not> undecided mw req env n"
proof -
  from loop_returns_decides [OF assms] have ex: "\<exists>n. \<not> undecided mw req env n"
    by (auto simp: loop_inv_def)
  define n where "n = (LEAST n. \<not> undecided mw req env n)"
  have "\<not> undecided mw req env n"
    unfolding n_def using ex by (rule LeastI_ex)
  moreover have "\<forall>i<n. undecided mw req env i"
    unfolding n_def using not_less_Least by blast
  ultimately show ?thesis by blast
qed


lemma streak_Suc_le: "streak env (Suc n) \<le> Suc (streak env n)"
  by simp

lemma since_grows:
  assumes "sleeps d env"
  shows "since env 0 + int n * d \<le> since env n"
proof (induction n)
  case 0
  show ?case by simp
next
  case (Suc n)
  from assms have "since env n + d \<le> since env (Suc n)" by (simp add: sleeps_def)
  with Suc show ?case by (simp add: algebra_simps)
qed

lemma clock_passes:
  assumes "sleeps d env" and "0 < d"
  shows "\<exists>n. since env n > mw"
proof -
  define n where "n = nat (mw - since env 0) + 1"
  have "mw - since env 0 < int n" by (simp add: n_def)
  also have "int n \<le> int n * d"
  proof -
    have "int n * 1 \<le> int n * d"
      by (rule mult_left_mono) (use assms(2) in auto)
    then show ?thesis by simp
  qed
  finally have "mw < since env 0 + int n * d" by simp
  with since_grows [OF assms(1), of n] show ?thesis by (intro exI [of _ n]) simp
qed

lemma first_decision:
  assumes "\<exists>n. \<not> undecided mw req env n"
  shows "\<exists>n. (\<forall>i<n. undecided mw req env i) \<and> \<not> undecided mw req env n"
proof -
  define n where "n = (LEAST n. \<not> undecided mw req env n)"
  have "\<not> undecided mw req env n"
    unfolding n_def using assms by (rule LeastI_ex)
  moreover have "\<forall>i<n. undecided mw req env i"
    unfolding n_def using not_less_Least by blast
  ultimately show ?thesis by blast
qed

lemma decisions_agree:
  assumes "\<forall>i<n. undecided mw req env i" "\<not> undecided mw req env n"
    and "\<forall>i<m. undecided mw req env i" "\<not> undecided mw req env m"
  shows "m = n"
  using assms by (meson linorder_neqE_nat)

lemma isStable_stable_iff:
  "isStable_loop mw req env 0 0 0 0 = Some (True, False) \<longleftrightarrow>
     (\<exists>n. (\<forall>i\<le>n. since env i \<le> mw \<and> stat env i \<noteq> None)
          \<and> streak env n = matches_needed req
          \<and> (\<forall>i<n. streak env i < matches_needed req))"
  (is "?L \<longleftrightarrow> ?R")
proof
  assume ?L
  from isStable_some_decides [OF this] obtain n where
    n: "\<forall>i<n. undecided mw req env i" "\<not> undecided mw req env n" by blast
  from loop_decides [OF n] \<open>?L\<close> have ok: "since env n \<le> mw" "stat env n \<noteq> None"
    by (auto split: if_splits)
  with n(2) have ge: "streak env n \<ge> matches_needed req" by (auto simp: undecided_def)
  have "streak env n = matches_needed req"
  proof (cases n)
    case 0
    with ge show ?thesis by (simp add: matches_needed_def)
  next
    case (Suc m)
    with n(1) have "streak env m < matches_needed req" by (simp add: undecided_def)
    with ge streak_Suc_le [of env m] show ?thesis unfolding Suc by linarith
  qed
  with n(1) ok show ?R
    by (intro exI [of _ n]) (auto simp: undecided_def le_less)
next
  assume ?R
  then obtain n where n: "\<forall>i\<le>n. since env i \<le> mw \<and> stat env i \<noteq> None"
    "streak env n = matches_needed req" "\<forall>i<n. streak env i < matches_needed req"
    by blast
  then have "\<forall>i<n. undecided mw req env i" "\<not> undecided mw req env n"
    by (auto simp: undecided_def)
  from loop_decides [OF this] n(1) show ?L by auto
qed

lemma isStable_timeout_iff:
  "isStable_loop mw req env 0 0 0 0 = Some (True, True) \<longleftrightarrow>
     (\<exists>n. (\<forall>i<n. since env i \<le> mw \<and> stat env i \<noteq> None \<and> streak env i < matches_needed req)
          \<and> mw < since env n)"
  (is "?L \<longleftrightarrow> ?R")
proof
  assume ?L
  from isStable_some_decides [OF this] obtain n where
    n: "\<forall>i<n. undecided mw req env i" "\<not> undecided mw req env n" by blast
  from loop_decides [OF n] \<open>?L\<close> have "mw < since env n"
    by (auto split: if_splits)
  with n(1) show ?R
    by (intro exI [of _ n]) (auto simp: undecided_def)
next
  assume ?R
  then obtain n where n: "\<forall>i<n. since env i \<le> mw \<and> stat env i \<noteq> None \<and> streak env i < matches_needed req"
    "mw < since env n" by blast
  then have "\<forall>i<n. undecided mw req env i" "\<not> undecided mw req env n"
    by (auto simp: undecided_def)
  from loop_decides [OF this] n(2) show ?L by auto
qed

lemma isStable_returns:
  assumes "sleeps d env" and "0 < d"
  shows "isStable_loop mw req env 0 0 0 0 \<noteq> None"
proof -
  from clock_passes [OF assms] obtain k where "since env k > mw" ..
  then have "\<not> undecided mw req env k" by (simp add: undecided_def)
  then have "\<exists>n. \<not> undecided mw req env n" ..
  from first_decision [OF this] obtain n where
    n: "\<forall>i<n. undecided mw req env i" "\<not> undecided mw req env n" by blast
  from loop_decides [OF n] show ?thesis by auto
qed

text \<open>
  Claim C1, as the code has it.  For a policy with a positive confirmation interval, at
  least one required check and a positive maximum wait, and a clock that advances by at
  least the interval from one turn to the next:
  the prober returns (true, false) exactly when some sample \<open>n\<close> completes, for the first
  time, a run of \<open>max 1 (required_stable_checks - 1)\<close> consecutive matching samples,
  every sample up to \<open>n\<close> having been read within the maximum wait from a file that was
  there (the first sample counts as the first check, and a sample that differs from the
  one before it counts as the first check of a new run);
  it returns (true, true) exactly when the clock passes the maximum wait at the head of
  some turn before which no such run was completed and the file was there at every
  sample; and it always returns.
\<close>

theorem isStable_streak:
  assumes "0 < GetConfirmationInterval cfg"
    and "1 \<le> RequiredStableChecks cfg"
    and "0 < GetMaxWait cfg"
    and "sleeps (GetConfirmationInterval cfg) env"
  shows "(isStable cfg env = Some (True, False) \<longleftrightarrow>
           (\<exists>n. (\<forall>i\<le>n. since env i \<le> GetMaxWait cfg \<and> stat env i \<noteq> None)
              \<and> streak env n = max 1 (nat (RequiredStableChecks cfg - 1))
              \<and> (\<forall>i<n. streak env i < max 1 (nat (RequiredStableChecks cfg - 1)))))
       \<and> (isStable cfg env = Some (True, True) \<longleftrightarrow>
           (\<exists>n. (\<forall>i<n. since env i \<le> GetMaxWait cfg \<and> stat env i \<noteq> None
                      \<and> streak env i < max 1 (nat (RequiredStableChecks cfg - 1)))
              \<and> GetMaxWait cfg < since env n))
       \<and> isStable cfg env \<noteq> None"
  unfolding isStable_def
  using isStable_stable_iff [of "GetMaxWait cfg" "RequiredStableChecks cfg" env]
    isStable_timeout_iff [of "GetMaxWait cfg" "RequiredStableChecks cfg" env]
    isStable_returns [OF assms(4) assms(1), of "GetMaxWait cfg" "RequiredStableChecks cfg"]
  unfolding matches_needed_def by blast


theorem isStable_streak_witness:
  "isStable cfg_three_checks env_quiet = Some (True, False)"
proof -
  have 1: "0 < GetConfirmationInterval cfg_three_checks"
    by (simp add: cfg_three_checks_def GetConfirmationInterval_def int64_def Millisecond_def)
  have 2: "1 \<le> RequiredStableChecks cfg_three_checks"
    by (simp add: cfg_three_checks_def)
  have 3: "0 < GetMaxWait cfg_three_checks"
    by (simp add: cfg_three_checks_def GetMaxWait_def int64_def Millisecond_def)
  have 4: "sleeps (GetConfirmationInterval cfg_three_checks) env_quiet"
    by (simp add: sleeps_def cfg_three_checks_def env_quiet_def GetConfirmationInterval_def
        int64_def Millisecond_def)
  have 5: "\<forall>i\<le>2. since env_quiet i \<le> GetMaxWait cfg_three_checks \<and> stat env_quiet i \<noteq> None"
    by (simp add: cfg_three_checks_def env_quiet_def GetMaxWait_def int64_def Millisecond_def)
  have 6: "streak env_quiet 2 = max 1 (nat (RequiredStableChecks cfg_three_checks - 1))"
    by (simp add: cfg_three_checks_def env_quiet_def same_info_def eval_nat_numeral)
  have 7: "\<forall>i<2. streak env_quiet i < max 1 (nat (RequiredStableChecks cfg_three_checks - 1))"
    by (simp add: cfg_three_checks_def env_quiet_def same_info_def less_Suc_eq eval_nat_numeral)
  from isStable_streak [OF 1 2 3 4] 5 6 7 show ?thesis by blast
qed

text \<open>
  The claim as the specification words it asks for \<open>required_stable_checks\<close> consecutive
  matching samples, the first sample not counting.  With two checks required, the run
  below has one matching sample (sample 1) and none after it, and the clock passes the
  maximum wait at turn 3; the prober has reported stability at sample 1.
\<close>

theorem isStable_first_sample_counts:
  "isStable cfg_two_checks env_changing = Some (True, False)
   \<and> RequiredStableChecks cfg_two_checks = 2
   \<and> streak env_changing 0 = 0 \<and> streak env_changing 1 = 1 \<and> streak env_changing 2 = 0
   \<and> since env_changing 2 \<le> GetMaxWait cfg_two_checks
   \<and> GetMaxWait cfg_two_checks < since env_changing 3"
  by (simp add: isStable_def isStable_loop.simps cfg_two_checks_def env_changing_def
      GetMaxWait_def int64_def Millisecond_def same_info_def eval_nat_numeral)


section \<open>Properties of the shadow archiver\<close>

lemma length_digits [simp]: "length (digits w n) = w"
  by (induction w arbitrary: n) auto

lemma digit_char_inj:
  assumes "digit_char a = digit_char b" "a < 10" "b < 10"
  shows "a = b"
proof -
  have "distinct ''0123456789''" by simp
  moreover have "a < length ''0123456789''" "b < length ''0123456789''" using assms by simp_all
  ultimately show ?thesis
    using assms(1) unfolding digit_char_def by (simp only: nth_eq_iff_index_eq)
qed

lemma digits_inj:
  "digits w a = digits w b \<Longrightarrow> a mod 10 ^ w = b mod 10 ^ w"
proof (induction w arbitrary: a b)
  case 0
  show ?case by simp
next
  case (Suc w)
  from Suc.prems have d: "digits w (a div 10) = digits w (b div 10)"
    and c: "digit_char (a mod 10) = digit_char (b mod 10)"
    by simp_all
  from digit_char_inj [OF c] have m: "a mod 10 = b mod 10" by simp
  from Suc.IH [OF d] have "a div 10 mod 10 ^ w = b div 10 mod 10 ^ w" .
  with m show ?case by (simp add: mod_mult2_eq)
qed

lemma digits_eq_iff:
  assumes "a < 10 ^ w" "b < 10 ^ w"
  shows "digits w a = digits w b \<longleftrightarrow> a = b"
  using digits_inj [of w a b] assms by auto

lemma appendInt_small:
  assumes "0 \<le> x" "x < 10 ^ w"
  shows "appendInt x w = digits w (nat x)"
proof -
  from assms have "nat \<bar>x\<bar> < 10 ^ w"
    by (metis abs_of_nonneg nat_less_iff of_nat_numeral of_nat_power)
  then show ?thesis using assms(1) by (simp add: appendInt_def Let_def)
qed

lemma Format_calendar:
  assumes "calendar t"
  shows "Format t =
     digits 4 (nat (year t)) @ digits 2 (month t) @ digits 2 (day t) @ ''-'' @
     digits 2 (hour t) @ digits 2 (minute t) @ digits 2 (second t) @
     ''.'' @ digits 6 (nanosecond t div 1000)"
  using assms unfolding Format_def calendar_def
  by (simp add: appendInt_small)

lemma length_Format: "calendar t \<Longrightarrow> length (Format t) = 22"
  by (simp add: Format_calendar)

lemma Format_inj:
  assumes "calendar s" "calendar t" "Format s = Format t"
  shows "micros s = micros t"
proof -
  from assms(3) have "digits 4 (nat (year s)) = digits 4 (nat (year t))"
    "digits 2 (month s) = digits 2 (month t)"
    "digits 2 (day s) = digits 2 (day t)"
    "digits 2 (hour s) = digits 2 (hour t)"
    "digits 2 (minute s) = digits 2 (minute t)"
    "digits 2 (second s) = digits 2 (second t)"
    "digits 6 (nanosecond s div 1000) = digits 6 (nanosecond t div 1000)"
    unfolding Format_calendar [OF assms(1)] Format_calendar [OF assms(2)]
    by simp_all
  moreover have "nat (year s) < 10 ^ 4" "nat (year t) < 10 ^ 4"
    "month s < 10 ^ 2" "month t < 10 ^ 2" "day s < 10 ^ 2" "day t < 10 ^ 2"
    "hour s < 10 ^ 2" "hour t < 10 ^ 2" "minute s < 10 ^ 2" "minute t < 10 ^ 2"
    "second s < 10 ^ 2" "second t < 10 ^ 2"
    "nanosecond s div 1000 < 10 ^ 6" "nanosecond t div 1000 < 10 ^ 6"
    using assms(1,2) by (auto simp: calendar_def)
  ultimately have "nat (year s) = nat (year t)" "month s = month t" "day s = day t"
    "hour s = hour t" "minute s = minute t" "second s = second t"
    "nanosecond s div 1000 = nanosecond t div 1000"
    by (simp_all only: digits_eq_iff)
  moreover have "0 \<le> year s" "0 \<le> year t" using assms(1,2) by (auto simp: calendar_def)
  ultimately show ?thesis by (simp add: micros_def)
qed

lemma micros_Format:
  assumes "calendar s" "calendar t" "micros s = micros t"
  shows "Format s = Format t"
  using assms(3) unfolding Format_calendar [OF assms(1)] Format_calendar [OF assms(2)]
  by (simp add: micros_def)

lemma shadowName_eq_iff:
  assumes "calendar s" "calendar t"
  shows "shadowName s p = shadowName t q \<longleftrightarrow> micros s = micros t \<and> Base p = Base q"
proof
  assume eq: "shadowName s p = shadowName t q"
  have "length (Format s) = length (Format t)"
    using assms by (simp add: length_Format)
  with eq have "Format s = Format t" "Base p = Base q"
    by (simp_all add: shadowName_def)
  with Format_inj [OF assms] show "micros s = micros t \<and> Base p = Base q" by simp
next
  assume "micros s = micros t \<and> Base p = Base q"
  with micros_Format [OF assms] show "shadowName s p = shadowName t q"
    by (simp add: shadowName_def)
qed

lemma digits_numeral:
  "digits (numeral k) n = digits (pred_numeral k) (n div 10) @ [digit_char (n mod 10)]"
  using digits.simps(2) [of "pred_numeral k" n] by (simp only: numeral_eq_Suc [symmetric])

lemma Store_writes:
  assumes "Enabled config" and "Store config env archive sourcePath = (None, archive')"
  shows "archive' = insert (filepath_Join [Path config, shadowName (now env) sourcePath]) archive"
  using assms
  by (auto simp: Store_def getShadowPath_def Let_def split: option.splits copy_failure.splits)

text \<open>
  Claim C8.  Every entry that \<open>Store\<close> writes is named by the timestamp of its clock
  reading, a hyphen and the basename of the source, and for a calendar reading the
  timestamp has the form \<^verbatim>\<open>YYYYMMDD-HHMMSS.uuuuuu\<close> (lemma \<open>Format_calendar\<close>).  The
  names of distinct calls are meant to be distinct, but nothing in \<open>Store\<close> makes two
  readings of the clock differ: by \<open>shadowName_eq_iff\<close> two calls write the same name
  exactly when their readings agree to the microsecond and their sources have the same
  basename.  Below, two calls for the same source follow one another, the second reading
  the clock 800 ns after the first, in the same microsecond.  Both succeed, both write
  the same name, and the archive holds one entry afterwards: the second call has
  overwritten the copy made by the first.
\<close>

theorem Store_same_microsecond:
  "store_names [(at_time noon, ''/data/in/a.txt''),
                (at_time (noon\<lparr>nanosecond := 123456900\<rparr>), ''/data/in/a.txt'')]
     = [''20250101-120000.123456-a.txt'', ''20250101-120000.123456-a.txt'']
   \<and> nanosecond (now (at_time noon)) < nanosecond (now (at_time (noon\<lparr>nanosecond := 123456900\<rparr>)))
   \<and> Store shadow_on (at_time noon) {} ''/data/in/a.txt''
       = (None, {''/var/shadow/20250101-120000.123456-a.txt''})
   \<and> Store shadow_on (at_time (noon\<lparr>nanosecond := 123456900\<rparr>))
         {''/var/shadow/20250101-120000.123456-a.txt''} ''/data/in/a.txt''
       = (None, {''/var/shadow/20250101-120000.123456-a.txt''})
   \<and> Store_all shadow_on
         [(at_time noon, ''/data/in/a.txt''),
          (at_time (noon\<lparr>nanosecond := 123456900\<rparr>), ''/data/in/a.txt'')] {}
       = {''/var/shadow/20250101-120000.123456-a.txt''}"
proof -
  have n1: "shadowName noon ''/data/in/a.txt'' = ''20250101-120000.123456-a.txt''"
    by (simp add: shadowName_def noon_def Format_def appendInt_def
        digits_numeral digit_char_def Base_def sep_def)
  have n2: "shadowName (noon\<lparr>nanosecond := 123456900\<rparr>) ''/data/in/a.txt''
      = ''20250101-120000.123456-a.txt''"
    by (simp add: shadowName_def noon_def Format_def appendInt_def
        digits_numeral digit_char_def Base_def sep_def)
  have j: "filepath_Join [''/var/shadow'', ''20250101-120000.123456-a.txt'']
      = ''/var/shadow/20250101-120000.123456-a.txt''"
    by (simp add: filepath_Join_def Clean_def sep_def)
  have s1: "Store shadow_on (at_time noon) {} ''/data/in/a.txt''
       = (None, {''/var/shadow/20250101-120000.123456-a.txt''})"
    by (simp add: Store_def getShadowPath_def shadow_on_def at_time_def n1 j)
  have s2: "Store shadow_on (at_time (noon\<lparr>nanosecond := 123456900\<rparr>))
         {''/var/shadow/20250101-120000.123456-a.txt''} ''/data/in/a.txt''
       = (None, {''/var/shadow/20250101-120000.123456-a.txt''})"
    by (simp add: Store_def getShadowPath_def shadow_on_def at_time_def n2 j)
  have t: "nanosecond (now (at_time noon))
      < nanosecond (now (at_time (noon\<lparr>nanosecond := 123456900\<rparr>)))"
    by (simp add: at_time_def noon_def)
  have names: "store_names [(at_time noon, ''/data/in/a.txt''),
                (at_time (noon\<lparr>nanosecond := 123456900\<rparr>), ''/data/in/a.txt'')]
     = [''20250101-120000.123456-a.txt'', ''20250101-120000.123456-a.txt'']"
    by (simp add: store_names_def at_time_def n1 n2)
  show ?thesis
    using names t s1 s2 by simp
qed


section \<open>Properties of the retry loop\<close>

lemma schedule_simps:
  "schedule 0 = [Do 0]"
  "schedule (Suc 0) = [Do 0, Sleep Second, Do 1]"
  "schedule 2 = [Do 0, Sleep Second, Do 1, Sleep (2 * Second), Do 2]"
  "schedule 3 = full_schedule"
  by (simp_all add: schedule_def full_schedule_def)

lemma schedule_Suc:
  assumes "k < 3"
  shows "schedule (Suc k) = schedule k @ [Sleep (backoff_at (Suc k)), Do (Suc k)]"
proof -
  from assms consider "k = 0" | "k = 1" | "k = 2" by linarith
  then show ?thesis
    by cases (simp_all add: schedule_def full_schedule_def backoff_at_def)
qed

lemma backoff_at_Suc: "backoff_at (Suc k) = (if k > 0 then backoff_at k * 2 else backoff_at k)"
  by (cases k) (simp_all add: backoff_at_def)

text \<open>One turn of the loop.\<close>

lemma loop_turn:
  assumes "attempt \<le> 3" and "\<not> (attempt > 0 \<and> cancelled_before env attempt)"
  shows "executeWithRetry_loop env attempt (backoff_at attempt) lastErr =
     (let rest = after_do (do_result env attempt) attempt
                   (executeWithRetry_loop env (Suc attempt) (backoff_at (Suc attempt))
                      (cause (do_result env attempt)))
      in (fst rest, (if attempt > 0 then [Sleep (backoff_at attempt)] else []) @ snd rest))"
  using assms
  by (subst executeWithRetry_loop.simps)
     (auto simp: maxRetries_def after_do_def cause_def backoff_at_Suc Let_def
           split: attempt_result.splits prod.splits)

lemma loop_cancelled:
  assumes "attempt \<le> 3" and "attempt > 0" and "cancelled_before env attempt"
  shows "executeWithRetry_loop env attempt backoff lastErr = (Some UploadCancelled, [])"
  using assms by (subst executeWithRetry_loop.simps) (simp add: maxRetries_def)

lemma loop_exhausted:
  "executeWithRetry_loop env 4 backoff lastErr = (Some (UploadFailed 4 lastErr), [])"
  by (subst executeWithRetry_loop.simps) (simp add: maxRetries_def)

lemma reaches_Suc:
  "reaches env (Suc k) \<longleftrightarrow>
     reaches env k \<and> retryable (do_result env k) \<and> \<not> cancelled_before env (Suc k)"
  by (auto simp: reaches_def less_Suc_eq)

lemma after_do_retryable:
  "retryable r \<Longrightarrow> after_do r k rest = (fst rest, Do k # snd rest)"
  by (auto simp: retryable_def after_do_def split: attempt_result.splits)

lemma schedule_last:
  assumes "k \<le> 3"
  shows "butlast (schedule k) @ [Do k] = schedule k"
proof -
  from assms consider "k = 0" | "k = 1" | "k = 2" | "k = 3" by linarith
  then show ?thesis
    by cases (simp_all add: schedule_def full_schedule_def)
qed

lemma butlast_schedule_Suc:
  assumes "k < 3"
  shows "butlast (schedule (Suc k)) = butlast (schedule k) @ [Do k, Sleep (backoff_at (Suc k))]"
proof -
  have "butlast (schedule (Suc k)) = schedule k @ [Sleep (backoff_at (Suc k))]"
    by (simp add: schedule_Suc [OF assms] butlast_append)
  also have "schedule k = butlast (schedule k) @ [Do k]"
    using assms by (simp add: schedule_last)
  finally show ?thesis by simp
qed

text \<open>The run up to the request of a reached attempt.\<close>

lemma run_reaches:
  assumes "reaches env k" and "k \<le> 3"
  shows "executeWithRetry env =
     (fst (after_do (do_result env k) k
             (executeWithRetry_loop env (Suc k) (backoff_at (Suc k)) (cause (do_result env k)))),
      butlast (schedule k) @
      snd (after_do (do_result env k) k
             (executeWithRetry_loop env (Suc k) (backoff_at (Suc k)) (cause (do_result env k)))))"
  using assms
proof (induction k)
  case 0
  have b0: "backoff_at 0 = Second" by (simp add: backoff_at_def)
  show ?case
    unfolding executeWithRetry_def
    using loop_turn [of 0 env NoError] by (simp add: b0 schedule_simps Let_def)
next
  case (Suc k)
  from Suc.prems have r: "reaches env k" and ret: "retryable (do_result env k)"
    and nc: "\<not> cancelled_before env (Suc k)" and k: "k < 3"
    by (auto simp: reaches_Suc)
  let ?L = "executeWithRetry_loop env (Suc k) (backoff_at (Suc k)) (cause (do_result env k))"
  let ?R = "after_do (do_result env (Suc k)) (Suc k)
              (executeWithRetry_loop env (Suc (Suc k)) (backoff_at (Suc (Suc k)))
                 (cause (do_result env (Suc k))))"
  from Suc.IH [OF r] k have 1: "executeWithRetry env =
      (fst ?L, butlast (schedule k) @ Do k # snd ?L)"
    by (simp add: after_do_retryable [OF ret])
  have 2: "?L = (fst ?R, Sleep (backoff_at (Suc k)) # snd ?R)"
    using loop_turn [of "Suc k" env "cause (do_result env k)"] nc k
    by (simp add: Let_def)
  show ?case
    unfolding 1 by (subst (1 2) 2) (simp add: butlast_schedule_Suc [OF k])
qed

lemma run_success:
  assumes "reaches env k" "k \<le> 3" "do_result env k = Response code body"
    "200 \<le> code" "code < 300"
  shows "executeWithRetry env = (None, schedule k)"
  using run_reaches [OF assms(1,2)] assms(2-)
  by (simp add: after_do_def schedule_last)

lemma run_client_error:
  assumes "reaches env k" "k \<le> 3" "do_result env k = Response code body"
    "400 \<le> code" "code < 500"
  shows "executeWithRetry env = (Some (ClientError code body), schedule k)"
  using run_reaches [OF assms(1,2)] assms(2-)
  by (simp add: after_do_def schedule_last)

lemma run_transport_cancelled:
  assumes "reaches env k" "k \<le> 3" "do_result env k = TransportError True"
  shows "executeWithRetry env = (Some UploadCancelled, schedule k)"
  using run_reaches [OF assms(1,2)] assms(2-)
  by (simp add: after_do_def schedule_last)

lemma run_select_cancelled:
  assumes "reaches env k" "k < 3" "retryable (do_result env k)" "cancelled_before env (Suc k)"
  shows "executeWithRetry env = (Some UploadCancelled, schedule k)"
proof -
  have "executeWithRetry_loop env (Suc k) (backoff_at (Suc k)) (cause (do_result env k))
      = (Some UploadCancelled, [])"
    using assms(2,4) by (intro loop_cancelled) auto
  with run_reaches [OF assms(1)] assms(2,3) show ?thesis
    by (simp add: after_do_retryable schedule_last)
qed

lemma run_exhausted:
  assumes "reaches env 3" "retryable (do_result env 3)"
  shows "executeWithRetry env = (Some (UploadFailed 4 (cause (do_result env 3))), full_schedule)"
proof -
  have "Suc 3 = 4" by simp
  with run_reaches [OF assms(1)] assms(2) loop_exhausted [of env "backoff_at 4" "cause (do_result env 3)"]
  show ?thesis
    using schedule_last [of 3]
    by (simp add: after_do_retryable schedule_simps)
qed

lemma run_retries:
  assumes "reaches env k" "k < 3" "retryable (do_result env k)" "\<not> cancelled_before env (Suc k)"
  shows "prefix (schedule (Suc k)) (snd (executeWithRetry env))"
proof -
  from assms have "reaches env (Suc k)" by (simp add: reaches_Suc)
  from run_reaches [OF this] assms(2)
  have "snd (executeWithRetry env) = butlast (schedule (Suc k)) @
      snd (after_do (do_result env (Suc k)) (Suc k)
             (executeWithRetry_loop env (Suc (Suc k)) (backoff_at (Suc (Suc k)))
                (cause (do_result env (Suc k)))))"
    by simp
  moreover have "\<exists>es. snd (after_do r (Suc k) rest) = Do (Suc k) # es" for r rest
    by (auto simp: after_do_def split: attempt_result.splits)
  ultimately obtain es where "snd (executeWithRetry env) = butlast (schedule (Suc k)) @ Do (Suc k) # es"
    by metis
  then have "snd (executeWithRetry env) = schedule (Suc k) @ es"
    using schedule_last [of "Suc k"] assms(2) by simp
  then show ?thesis by simp
qed

text \<open>Every run is the schedule up to some attempt.\<close>

lemma run_shape_from:
  assumes "reaches env k" "k \<le> 3"
  shows "\<exists>j\<le>3. snd (executeWithRetry env) = schedule j"
  using assms
proof (induction "3 - k" arbitrary: k)
  case 0
  then have k: "k = 3" by simp
  show ?case
  proof (cases "retryable (do_result env 3)")
    case True
    with run_exhausted 0 k show ?thesis
      by (metis le_refl schedule_simps(4) snd_conv)
  next
    case False
    with run_reaches [of env 3] 0 k
    have "snd (executeWithRetry env) = schedule 3"
      using schedule_last [of 3]
      by (auto simp: after_do_def retryable_def split: attempt_result.splits if_splits)
    then show ?thesis by blast
  qed
next
  case (Suc n)
  then have k: "k < 3" by simp
  show ?case
  proof (cases "retryable (do_result env k)")
    case True
    show ?thesis
    proof (cases "cancelled_before env (Suc k)")
      case True
      with run_select_cancelled [OF Suc.prems(1) k \<open>retryable (do_result env k)\<close>]
      show ?thesis using k by (intro exI [of _ k]) simp
    next
      case False
      with True Suc.prems have r: "reaches env (Suc k)" by (simp add: reaches_Suc)
      from Suc(2) have n: "n = 3 - Suc k" by simp
      from k have "Suc k \<le> 3" by simp
      with Suc(1) [OF n r] show ?thesis .
    qed
  next
    case False
    with run_reaches [OF Suc.prems]
    have "snd (executeWithRetry env) = schedule k"
      using schedule_last [of k] Suc.prems(2)
      by (auto simp: after_do_def retryable_def split: attempt_result.splits if_splits)
    with Suc.prems(2) show ?thesis by blast
  qed
qed

lemma count_schedule:
  assumes "j \<le> 3"
  shows "length (filter is_Do (schedule j)) = Suc j" "prefix (schedule j) full_schedule"
proof -
  from assms consider "j = 0" | "j = 1" | "j = 2" | "j = 3" by linarith
  then show "length (filter is_Do (schedule j)) = Suc j"
    by cases (simp_all add: schedule_def full_schedule_def)
  show "prefix (schedule j) full_schedule"
    by (simp add: schedule_def take_is_prefix)
qed

lemma run_shape:
  "length (filter is_Do (snd (executeWithRetry env))) \<le> 4
   \<and> prefix (snd (executeWithRetry env)) full_schedule"
proof -
  have "reaches env 0" by (simp add: reaches_def)
  from run_shape_from [OF this] obtain j where "j \<le> 3" "snd (executeWithRetry env) = schedule j"
    by auto
  with count_schedule [of j] show ?thesis by simp
qed


text \<open>
  Claim C4.  A run of \<open>executeWithRetry\<close> makes at most four requests, and what it
  does is an initial part of: request, sleep 1 s, request, sleep 2 s, request, sleep 4 s,
  request.  At every attempt that is reached, a 2xx response ends the run with success
  and a 4xx response ends it with a client error, in both cases with no further request;
  a 5xx response or a transport failure is followed by the next attempt when one remains
  and the context is not done, and by the error "failed after 4 attempts" when it was
  the fourth; and when the context is found cancelled, in the wait before a retry or
  after a failed request, the run ends with the cancellation error and no further
  request.
\<close>

theorem executeWithRetry_policy:
  "length (filter is_Do (snd (executeWithRetry env))) \<le> 4
   \<and> prefix (snd (executeWithRetry env)) full_schedule
   \<and> (\<forall>k code body. k \<le> 3 \<and> reaches env k \<and> do_result env k = Response code body
          \<and> 200 \<le> code \<and> code < 300
        \<longrightarrow> executeWithRetry env = (None, schedule k))
   \<and> (\<forall>k code body. k \<le> 3 \<and> reaches env k \<and> do_result env k = Response code body
          \<and> 400 \<le> code \<and> code < 500
        \<longrightarrow> executeWithRetry env = (Some (ClientError code body), schedule k))
   \<and> (\<forall>k. k < 3 \<and> reaches env k \<and> \<not> cancelled_before env (Suc k)
          \<and> (do_result env k = TransportError False
              \<or> (\<exists>code body. do_result env k = Response code body \<and> 500 \<le> code \<and> code < 600))
        \<longrightarrow> prefix (schedule (Suc k)) (snd (executeWithRetry env)))
   \<and> (reaches env 3
          \<and> (do_result env 3 = TransportError False
              \<or> (\<exists>code body. do_result env 3 = Response code body \<and> 500 \<le> code \<and> code < 600))
        \<longrightarrow> executeWithRetry env
              = (Some (UploadFailed 4 (cause (do_result env 3))), full_schedule))
   \<and> (\<forall>k. k < 3 \<and> reaches env k \<and> retryable (do_result env k) \<and> cancelled_before env (Suc k)
        \<longrightarrow> executeWithRetry env = (Some UploadCancelled, schedule k))
   \<and> (\<forall>k. k \<le> 3 \<and> reaches env k \<and> do_result env k = TransportError True
        \<longrightarrow> executeWithRetry env = (Some UploadCancelled, schedule k))"
proof -
  have retry: "retryable r"
    if "r = TransportError False \<or> (\<exists>code body. r = Response code body \<and> 500 \<le> code \<and> code < 600)"
    for r
    using that by (auto simp: retryable_def)
  show ?thesis
  proof (intro conjI allI impI)
    show "length (filter is_Do (snd (executeWithRetry env))) \<le> 4"
      using run_shape by blast
    show "prefix (snd (executeWithRetry env)) full_schedule"
      using run_shape by blast
  next
    fix k code body
    assume "k \<le> 3 \<and> reaches env k \<and> do_result env k = Response code body
        \<and> 200 \<le> code \<and> code < 300"
    then show "executeWithRetry env = (None, schedule k)"
      using run_success by blast
  next
    fix k code body
    assume "k \<le> 3 \<and> reaches env k \<and> do_result env k = Response code body
        \<and> 400 \<le> code \<and> code < 500"
    then show "executeWithRetry env = (Some (ClientError code body), schedule k)"
      using run_client_error by blast
  next
    fix k
    assume "k < 3 \<and> reaches env k \<and> \<not> cancelled_before env (Suc k)
        \<and> (do_result env k = TransportError False
            \<or> (\<exists>code body. do_result env k = Response code body \<and> 500 \<le> code \<and> code < 600))"
    then show "prefix (schedule (Suc k)) (snd (executeWithRetry env))"
      using run_retries retry by blast
  next
    assume "reaches env 3
        \<and> (do_result env 3 = TransportError False
            \<or> (\<exists>code body. do_result env 3 = Response code body \<and> 500 \<le> code \<and> code < 600))"
    then show "executeWithRetry env
        = (Some (UploadFailed 4 (cause (do_result env 3))), full_schedule)"
      using run_exhausted retry by blast
  next
    fix k
    assume "k < 3 \<and> reaches env k \<and> retryable (do_result env k) \<and> cancelled_before env (Suc k)"
    then show "executeWithRetry env = (Some UploadCancelled, schedule k)"
      using run_select_cancelled by blast
  next
    fix k
    assume "k \<le> 3 \<and> reaches env k \<and> do_result env k = TransportError True"
    then show "executeWithRetry env = (Some UploadCancelled, schedule k)"
      using run_transport_cancelled by blast
  qed
qed

theorem executeWithRetry_policy_witness:
  "executeWithRetry (retry_env_of [Response 500 [], Response 500 [], Response 200 []])
     = (None, [Do 0, Sleep Second, Do 1, Sleep (2 * Second), Do 2])"
proof -
  let ?env = "retry_env_of [Response 500 [], Response 500 [], Response 200 []]"
  have 1: "reaches ?env 2"
    by (simp add: reaches_def retry_env_of_def retryable_def less_Suc_eq numeral_2_eq_2)
  have 2: "do_result ?env 2 = Response 200 []"
    by (simp add: retry_env_of_def)
  have 3: "schedule 2 = [Do 0, Sleep Second, Do 1, Sleep (2 * Second), Do 2]"
    by (simp add: schedule_def full_schedule_def)
  have "(2::nat) \<le> 3 \<and> reaches ?env 2 \<and> do_result ?env 2 = Response 200 []
      \<and> (200::int) \<le> 200 \<and> (200::int) < 300"
    using 1 2 by simp
  with executeWithRetry_policy [of ?env] have "executeWithRetry ?env = (None, schedule 2)"
    by blast
  with 3 show ?thesis by simp
qed


section \<open>Properties of the dispatcher\<close>

lemma select_default_never_blocks: "select ready pick True \<noteq> Blocked"
  by (simp add: select_def)













section \<open>Properties of the worker\<close>

lemma worker_job_keeps:
  assumes "\<not> may_delete shadow env event archive"
  shows "fst (snd (worker_job shadow callback env event (sources, archive))) = sources"
    and "RemoveSource (event_path event) \<notin> set (fst (worker_job shadow callback env event (sources, archive)))"
  using assms
  by (auto simp: worker_job_def may_delete_def Let_def split: option.splits prod.splits if_splits)

lemma worker_job_deletes:
  assumes "may_delete shadow env event archive" "stat_for_upload env \<noteq> None"
  shows "RemoveSource (event_path event) \<in> set (fst (worker_job shadow callback env event (sources, archive)))"
    and "remove_failure env = None \<Longrightarrow>
         fst (snd (worker_job shadow callback env event (sources, archive))) = sources - {event_path event}"
  using assms
  by (auto simp: worker_job_def may_delete_def Let_def split: option.splits prod.splits if_splits)

lemma Store_disabled: "\<not> Enabled shadow \<Longrightarrow> Store shadow senv archive p = (None, archive)"
  by (simp add: Store_def)


text \<open>
  Claim C2.  A worker deletes the source file of a job (it calls \<^verbatim>\<open>os.Remove\<close>, and
  the file is gone afterwards) only if the upload succeeded, the job is not flagged as
  processed on a stability timeout, the shadow copy succeeded (which it does, without
  doing anything, when shadowing is disabled) and the size and modification time seen
  just before the deletion are those seen before the shadow copy.  In every other case
  the set of source files is unchanged and \<^verbatim>\<open>os.Remove\<close> is not called.  When the four
  conditions hold and \<^verbatim>\<open>os.Remove\<close> succeeds, the file is gone.
\<close>

theorem worker_deletes_only_when_safe:
  "((fst (snd (worker_job shadow callback env event (sources, archive))) \<noteq> sources
      \<or> RemoveSource (event_path event)
           \<in> set (fst (worker_job shadow callback env event (sources, archive))))
     \<longrightarrow> may_delete shadow env event archive)
   \<and> (\<not> may_delete shadow env event archive
     \<longrightarrow> fst (snd (worker_job shadow callback env event (sources, archive))) = sources
         \<and> RemoveSource (event_path event)
             \<notin> set (fst (worker_job shadow callback env event (sources, archive))))
   \<and> (may_delete shadow env event archive \<and> stat_for_upload env \<noteq> None
        \<and> remove_failure env = None
     \<longrightarrow> fst (snd (worker_job shadow callback env event (sources, archive)))
           = sources - {event_path event})
   \<and> (\<not> Enabled shadow
     \<longrightarrow> Store shadow (shadow_call env) archive (event_path event) = (None, archive))"
  using worker_job_keeps [of shadow env event archive callback sources]
    worker_job_deletes(2) [of shadow env event archive callback sources]
    Store_disabled [of shadow "shadow_call env" archive "event_path event"]
  by blast

theorem worker_deletes_only_when_safe_witness:
  "fst (snd (worker_job shadow_off True quiet_job
               \<lparr>event_path = ''/data/in/a.txt'', processedDueToTimeout = False\<rparr>
               ({''/data/in/a.txt''}, {}))) = {}
   \<and> fst (snd (worker_job shadow_off True quiet_job
               \<lparr>event_path = ''/data/in/a.txt'', processedDueToTimeout = True\<rparr>
               ({''/data/in/a.txt''}, {}))) = {''/data/in/a.txt''}"
proof -
  let ?ev = "\<lparr>event_path = ''/data/in/a.txt'', processedDueToTimeout = False\<rparr>"
  let ?late = "\<lparr>event_path = ''/data/in/a.txt'', processedDueToTimeout = True\<rparr>"
  have 1: "may_delete shadow_off quiet_job ?ev {}"
    by (simp add: may_delete_def quiet_job_def shadow_off_def Store_def)
  have 2: "stat_for_upload quiet_job \<noteq> None" "remove_failure quiet_job = None"
    by (simp_all add: quiet_job_def)
  have 3: "\<not> may_delete shadow_off quiet_job ?late {}"
    by (simp add: may_delete_def)
  from worker_deletes_only_when_safe [of shadow_off True quiet_job ?ev "{''/data/in/a.txt''}" "{}"] 1 2
  have a: "fst (snd (worker_job shadow_off True quiet_job ?ev ({''/data/in/a.txt''}, {}))) = {}"
    by simp
  from worker_deletes_only_when_safe [of shadow_off True quiet_job ?late "{''/data/in/a.txt''}" "{}"] 3
  have b: "fst (snd (worker_job shadow_off True quiet_job ?late ({''/data/in/a.txt''}, {})))
      = {''/data/in/a.txt''}"
    by simp
  from a b show ?thesis by simp
qed


section \<open>Properties of the upload handler\<close>

lemma a_txt_safe: "sanitizeFilename ''a.txt'' = Inr ''a.txt''"
  by (simp add: sanitizeFilename_def Clean_def HasPrefix_def sep_def nul_def backslash_def)

lemma a_txt_target:
  "validateSubdirectoryPath (Inr ''/srv'') ''/data/invoices'' ''a.txt'' = Inr ''/data/invoices/a.txt''"
  by (simp add: validateSubdirectoryPath_def Abs_def IsAbs_def HasPrefix_def filepath_Join_def
      Clean_def sep_def)

lemma a_txt_scratch:
  "filepath_Join [''/tmp/xferd'', Base ''a.txt'' @ ''.partial''] = ''/tmp/xferd/a.txt.partial''"
  by (simp add: filepath_Join_def Clean_def Base_def sep_def)

lemma copy_fails:
  "handleUpload invoices_server (io_ok\<lparr>copy_error := Some (3, ''no space left on device'')\<rparr>)
       post_a_txt Map.empty
     = (Returns (500, ''Failed to write file: failed to copy data: no space left on device''
                        @ [CHR 0x0A]),
        [''/tmp/xferd/a.txt.partial'' \<mapsto> ''hel''])"
  by (simp add: handleUpload_def invoices_server_def post_a_txt_def io_ok_def sep_def
      GetIngestPath_def a_txt_safe a_txt_target a_txt_scratch streamToFile_def http_Error_def)

lemma sync_fails:
  "handleUpload invoices_server (io_ok\<lparr>sync_error := Some ''input/output error''\<rparr>)
       post_a_txt Map.empty
     = (Returns (500, ''Failed to write file: failed to sync file: input/output error''
                        @ [CHR 0x0A]),
        [''/tmp/xferd/a.txt.partial'' \<mapsto> ''hello''])"
  by (simp add: handleUpload_def invoices_server_def post_a_txt_def io_ok_def sep_def
      GetIngestPath_def a_txt_safe a_txt_target a_txt_scratch streamToFile_def http_Error_def)

lemma rename_fails:
  "handleUpload invoices_server (io_ok\<lparr>rename_error := Some ''invalid cross-device link''\<rparr>)
       post_a_txt Map.empty
     = (Returns (500, ''Failed to finalize file: invalid cross-device link'' @ [CHR 0x0A]),
        Map.empty)"
  by (simp add: handleUpload_def invoices_server_def post_a_txt_def io_ok_def sep_def
      GetIngestPath_def a_txt_safe a_txt_target a_txt_scratch streamToFile_def http_Error_def
      os_Remove_def)

lemma upload_ok:
  "handleUpload invoices_server io_ok post_a_txt Map.empty
     = (Returns (200, ''Upload successful: a.txt'' @ [CHR 0x0A]),
        [''/data/invoices/a.txt'' \<mapsto> ''hello''])"
  by (simp add: handleUpload_def invoices_server_def post_a_txt_def io_ok_def sep_def
      GetIngestPath_def a_txt_safe a_txt_target a_txt_scratch streamToFile_def http_Error_def
      os_Rename_def fun_upd_twist)

text \<open>
  Claim C5.  When processing fails after the scratch file has started being written, the
  handler is to answer 500 and the scratch file is not to remain.  The handler answers
  500 in each case, but it removes the scratch file only when the rename fails: when
  \<open>streamToFile\<close> fails, in the copy or in the sync, the handler returns without
  removing what \<open>streamToFile\<close> has written.  Below, an upload of \<^verbatim>\<open>a.txt\<close> with
  content \<^verbatim>\<open>hello\<close> to a server whose temporary directory is empty: after a copy that
  fails having written three bytes, and after a sync that fails, the scratch file
  \<^verbatim>\<open>/tmp/xferd/a.txt.partial\<close> is there; after a rename that fails it is not.
\<close>

theorem handleUpload_scratch_remains:
  "handleUpload invoices_server (io_ok\<lparr>copy_error := Some (3, ''no space left on device'')\<rparr>)
       post_a_txt Map.empty
     = (Returns (500, ''Failed to write file: failed to copy data: no space left on device''
                        @ [CHR 0x0A]),
        [''/tmp/xferd/a.txt.partial'' \<mapsto> ''hel''])
   \<and> handleUpload invoices_server (io_ok\<lparr>sync_error := Some ''input/output error''\<rparr>)
       post_a_txt Map.empty
     = (Returns (500, ''Failed to write file: failed to sync file: input/output error''
                        @ [CHR 0x0A]),
        [''/tmp/xferd/a.txt.partial'' \<mapsto> ''hello''])
   \<and> handleUpload invoices_server (io_ok\<lparr>rename_error := Some ''invalid cross-device link''\<rparr>)
       post_a_txt Map.empty
     = (Returns (500, ''Failed to finalize file: invalid cross-device link'' @ [CHR 0x0A]),
        Map.empty)"
  using copy_fails sync_fails rename_fails by simp


section \<open>Properties of paths\<close>

lemma Split_nonempty [simp]: "Split s c \<noteq> []"
  by (induction s) (auto split: list.splits)

lemma Split_none: "c \<notin> set s \<Longrightarrow> Split s c = [s]"
  by (induction s) auto

lemma Split_append: "Split (a @ c # b) c = Split a c @ Split b c"
proof (induction a)
  case Nil
  show ?case by simp
next
  case (Cons x a)
  obtain y ys where y: "Split a c = y # ys"
    using Split_nonempty [of a c] by (cases "Split a c") auto
  with Cons show ?case by simp
qed

lemma Split_pieces: "e \<in> set (Split s c) \<Longrightarrow> c \<notin> set e"
proof (induction s arbitrary: e)
  case Nil
  then show ?case by simp
next
  case (Cons x s)
  obtain y ys where y: "Split s c = y # ys"
    using Split_nonempty [of s c] by (cases "Split s c") auto
  with Cons show ?case by (auto split: if_splits)
qed

lemma strings_Join_Cons: "es \<noteq> [] \<Longrightarrow> strings_Join (e # es) = e @ sep # strings_Join es"
  by (cases es) auto

lemma strings_Join_append:
  "as \<noteq> [] \<Longrightarrow> bs \<noteq> [] \<Longrightarrow> strings_Join (as @ bs) = strings_Join as @ sep # strings_Join bs"
proof (induction as)
  case Nil
  then show ?case by simp
next
  case (Cons a as)
  show ?case
  proof (cases "as = []")
    case True
    with Cons.prems show ?thesis by (simp add: strings_Join_Cons)
  next
    case False
    with Cons show ?thesis by (simp add: strings_Join_Cons)
  qed
qed

lemma Join_Split: "strings_Join (Split s sep) = s"
proof (induction s)
  case Nil
  show ?case by simp
next
  case (Cons x s)
  obtain y ys where y: "Split s sep = y # ys"
    using Split_nonempty [of s sep] by (cases "Split s sep") auto
  show ?case
  proof (cases "x = sep")
    case True
    with Cons show ?thesis by (simp add: strings_Join_Cons)
  next
    case False
    with Cons y show ?thesis by (cases ys) auto
  qed
qed

lemma Split_Join:
  assumes "es \<noteq> []" "\<forall>e \<in> set es. sep \<notin> set e"
  shows "Split (strings_Join es) sep = es"
  using assms
proof (induction es)
  case Nil
  then show ?case by simp
next
  case (Cons e es)
  show ?case
  proof (cases "es = []")
    case True
    with Cons.prems show ?thesis by (simp add: Split_none)
  next
    case False
    with Cons show ?thesis
      by (simp add: strings_Join_Cons Split_append Split_none)
  qed
qed

lemma clean_elems_normal:
  "\<forall>e \<in> set es. normal e \<Longrightarrow> clean_elems rooted out es = out @ es"
  by (induction es arbitrary: out) (auto simp: normal_def)

lemma clean_elems_rooted:
  assumes "\<forall>e \<in> set out. normal e" "\<forall>e \<in> set es. sep \<notin> set e"
  shows "\<forall>e \<in> set (clean_elems True out es). normal e"
  using assms
proof (induction es arbitrary: out)
  case Nil
  then show ?case by simp
next
  case (Cons e es)
  have b: "\<forall>e \<in> set (butlast out). normal e"
    using Cons.prems(1) by (meson in_set_butlastD)
  have p: "\<forall>x \<in> set (out @ [e]). normal x" if "e \<noteq> []" "e \<noteq> ''.''" "e \<noteq> ''..''"
    using that Cons.prems by (auto simp: normal_def)
  from Cons.prems(2) have es: "\<forall>e \<in> set es. sep \<notin> set e" by simp
  show ?case
    using Cons.IH [OF Cons.prems(1) es] Cons.IH [OF b es] Cons.IH [OF p es]
    by auto
qed

lemma Clean_rooted:
  "\<exists>cs. (\<forall>e \<in> set cs. normal e) \<and> Clean (sep # t) = sep # strings_Join cs"
proof -
  let ?cs = "clean_elems True [] (Split t sep)"
  have "\<forall>e \<in> set ?cs. normal e"
    by (rule clean_elems_rooted) (auto dest: Split_pieces)
  moreover have "Clean (sep # t) = sep # strings_Join ?cs"
    by (simp add: Clean_def)
  ultimately show ?thesis by blast
qed

lemma Clean_rooted_normal:
  assumes "\<forall>e \<in> set cs. normal e"
  shows "Clean (sep # strings_Join cs) = sep # strings_Join cs"
proof (cases "cs = []")
  case True
  then show ?thesis by (simp add: Clean_def)
next
  case False
  with assms have "Split (strings_Join cs) sep = cs"
    by (intro Split_Join) (auto simp: normal_def)
  with assms show ?thesis
    by (simp add: Clean_def clean_elems_normal)
qed

lemma strings_Join_nonempty:
  assumes "es \<noteq> []" "\<forall>e \<in> set es. normal e"
  shows "strings_Join es \<noteq> []" "hd (strings_Join es) \<noteq> sep"
proof -
  from assms obtain e es' where es: "es = e # es'" by (cases es) auto
  with assms(2) have e: "e \<noteq> []" "sep \<notin> set e" by (auto simp: normal_def)
  then obtain x xs where x: "e = x # xs" by (cases e) auto
  show "strings_Join es \<noteq> []" using es x by (cases es') auto
  show "hd (strings_Join es) \<noteq> sep" using es x e by (cases es') auto
qed

lemma Clean_relative_normal:
  assumes "es \<noteq> []" "\<forall>e \<in> set es. normal e"
  shows "Clean (strings_Join es) = strings_Join es"
proof -
  from assms have "Split (strings_Join es) sep = es"
    by (intro Split_Join) (auto simp: normal_def)
  with assms strings_Join_nonempty [OF assms] show ?thesis
    by (simp add: Clean_def clean_elems_normal)
qed


lemma Contains_char: "Contains s [c] \<longleftrightarrow> c \<in> set s"
  by (induction s) (auto simp: HasPrefix_def)

lemma sanitizeFilename_normal:
  assumes "sanitizeFilename filename = Inr safeFilename"
  shows "safeFilename = filename" "normal filename"
proof -
  from assms show "safeFilename = filename"
    by (auto simp: sanitizeFilename_def Let_def split: if_splits)
  from assms have "\<not> Contains filename ''/''" "filename \<noteq> []" "filename \<noteq> ''.''" "filename \<noteq> ''..''"
    by (auto simp: sanitizeFilename_def Let_def split: if_splits)
  moreover have "''/'' = [sep]" by (simp add: sep_def)
  ultimately show "normal filename"
    by (simp add: normal_def Contains_char)
qed

lemma sanitizeSubdirectoryPath_normal:
  assumes "sanitizeSubdirectoryPath subdir = Inr safeSubdir"
  shows "safeSubdir = subdir"
    and "\<exists>rs. rs \<noteq> [] \<and> (\<forall>e \<in> set rs. normal e) \<and> subdir = strings_Join rs"
proof -
  let ?rs = "Split subdir sep"
  from assms have f: "find (\<lambda>part. part = [] \<or> part = ''.'' \<or> part = ''..'') ?rs = None"
    and r: "safeSubdir = Clean subdir"
    by (auto simp: sanitizeSubdirectoryPath_def Let_def ToSlash_def FromSlash_def
        split: if_splits option.splits)
  have n: "\<forall>e \<in> set ?rs. normal e"
    using f by (auto simp: find_None_iff normal_def dest: Split_pieces)
  have j: "subdir = strings_Join ?rs" by (simp add: Join_Split)
  have "Clean (strings_Join ?rs) = strings_Join ?rs"
    by (rule Clean_relative_normal) (use n in auto)
  with r j show "safeSubdir = subdir" by simp
  from n j show "\<exists>rs. rs \<noteq> [] \<and> (\<forall>e \<in> set rs. normal e) \<and> subdir = strings_Join rs"
    by (intro exI [of _ ?rs]) simp
qed

lemma Abs_rooted:
  assumes "Abs getwd baseDir = Inr absBase" and "\<forall>wd. getwd = Inr wd \<longrightarrow> IsAbs wd"
  shows "\<exists>cs. (\<forall>e \<in> set cs. normal e) \<and> absBase = sep # strings_Join cs"
proof (cases "IsAbs baseDir")
  case True
  then obtain t where "baseDir = sep # t"
    by (cases baseDir) (auto simp: IsAbs_def HasPrefix_def)
  with True assms(1) Clean_rooted [of t] show ?thesis
    by (auto simp: Abs_def)
next
  case False
  with assms(1) obtain wd where wd: "getwd = Inr wd" "absBase = filepath_Join [wd, baseDir]"
    by (auto simp: Abs_def split: sum.splits)
  with assms(2) have "IsAbs wd" by blast
  then obtain t where t: "wd = sep # t"
    by (cases wd) (auto simp: IsAbs_def HasPrefix_def)
  then have "absBase = Clean (sep # (t @ sep # baseDir))"
    using wd(2) by (simp add: filepath_Join_def)
  with Clean_rooted [of "t @ sep # baseDir"] show ?thesis by auto
qed

text \<open>Joining a clean rooted base and a relative path of real elements.\<close>

lemma Join_base_rel:
  assumes cs: "\<forall>e \<in> set cs. normal e" and rs: "rs \<noteq> []" "\<forall>e \<in> set rs. normal e"
  shows "filepath_Join [sep # strings_Join cs, strings_Join rs] = sep # strings_Join (cs @ rs)"
proof -
  have all: "\<forall>e \<in> set (cs @ rs). normal e" using cs rs by auto
  have "filepath_Join [sep # strings_Join cs, strings_Join rs]
      = Clean (sep # (strings_Join cs @ sep # strings_Join rs))"
    by (simp add: filepath_Join_def)
  also have "\<dots> = sep # strings_Join (cs @ rs)"
  proof (cases "cs = []")
    case True
    have "Split (sep # strings_Join rs) sep = [] # rs"
      using Split_Join [of rs] rs by (auto simp: normal_def)
    then show ?thesis
      using True rs by (simp add: Clean_def clean_elems_normal)
  next
    case False
    then have "strings_Join cs @ sep # strings_Join rs = strings_Join (cs @ rs)"
      using rs(1) by (simp add: strings_Join_append)
    with Clean_rooted_normal [OF all] show ?thesis by simp
  qed
  finally show ?thesis .
qed

lemma validate_explicit:
  assumes base: "Abs getwd baseDir = Inr absBase" and wd: "\<forall>wd. getwd = Inr wd \<longrightarrow> IsAbs wd"
    and rs: "rs \<noteq> []" "\<forall>e \<in> set rs. normal e"
  shows "validateSubdirectoryPath getwd baseDir (strings_Join rs) =
     (if absBase = [sep] then Inl ''path escapes base directory''
      else Inr (absBase @ sep # strings_Join rs))"
proof -
  from Abs_rooted [OF base wd] obtain cs where cs: "\<forall>e \<in> set cs. normal e"
    and ab: "absBase = sep # strings_Join cs" by blast
  have all: "\<forall>e \<in> set (cs @ rs). normal e" using cs rs by auto
  have fin: "filepath_Join [absBase, strings_Join rs] = sep # strings_Join (cs @ rs)"
    unfolding ab by (rule Join_base_rel [OF cs rs])
  have absfin: "Abs getwd (sep # strings_Join (cs @ rs)) = Inr (sep # strings_Join (cs @ rs))"
    using Clean_rooted_normal [OF all] by (simp add: Abs_def IsAbs_def HasPrefix_def)
  have ne: "strings_Join rs \<noteq> []" "hd (strings_Join rs) \<noteq> sep"
    using strings_Join_nonempty [OF rs] by auto
  show ?thesis
  proof (cases "cs = []")
    case True
    then have "absBase = [sep]" using ab by simp
    moreover have "\<not> HasPrefix (sep # strings_Join rs) [sep, sep]"
      using ne by (cases "strings_Join rs") (auto simp: HasPrefix_def)
    ultimately show ?thesis
      using base fin absfin True ne by (simp add: validateSubdirectoryPath_def)
  next
    case False
    then have j: "strings_Join (cs @ rs) = strings_Join cs @ sep # strings_Join rs"
      using rs(1) by (simp add: strings_Join_append)
    have "strings_Join cs \<noteq> []" using strings_Join_nonempty(1) [OF False cs] .
    then have "absBase \<noteq> [sep]" using ab by simp
    moreover have "HasPrefix (sep # strings_Join cs @ sep # strings_Join rs) (absBase @ [sep])"
      unfolding ab by (simp add: HasPrefix_def)
    ultimately show ?thesis
      using base fin absfin j ab by (simp add: validateSubdirectoryPath_def)
  qed
qed


lemma Join_subdir_filename:
  assumes "sanitizeSubdirectoryPath subdir = Inr safeSubdir"
    and "sanitizeFilename filename = Inr safeFilename"
  shows "\<exists>rs. rs \<noteq> [] \<and> (\<forall>e \<in> set rs. normal e)
           \<and> filepath_Join [safeSubdir, safeFilename] = strings_Join rs
           \<and> strings_Join rs = subdir @ sep # filename"
proof -
  from sanitizeSubdirectoryPath_normal [OF assms(1)] obtain rs where
    s: "safeSubdir = subdir" and rs: "rs \<noteq> []" "\<forall>e \<in> set rs. normal e" "subdir = strings_Join rs"
    by blast
  from sanitizeFilename_normal [OF assms(2)] have f: "safeFilename = filename" "normal filename"
    by auto
  let ?all = "rs @ [filename]"
  have n: "?all \<noteq> []" "\<forall>e \<in> set ?all. normal e" using rs f by auto
  have j: "strings_Join ?all = subdir @ sep # filename"
    using rs by (simp add: strings_Join_append)
  have "subdir \<noteq> []" using strings_Join_nonempty(1) [OF rs(1,2)] rs(3) by simp
  then have "filepath_Join [safeSubdir, safeFilename] = Clean (subdir @ sep # filename)"
    using s f by (simp add: filepath_Join_def)
  also have "\<dots> = strings_Join ?all"
    using Clean_relative_normal [OF n] j by simp
  finally show ?thesis using n j by blast
qed

lemma filename_alone:
  assumes "sanitizeFilename filename = Inr safeFilename"
  shows "\<exists>rs. rs \<noteq> [] \<and> (\<forall>e \<in> set rs. normal e) \<and> safeFilename = strings_Join rs
           \<and> strings_Join rs = filename"
  using sanitizeFilename_normal [OF assms] by (intro exI [of _ "[filename]"]) simp

lemma validate_rejects:
  assumes "Abs getwd baseDir = Inr absBase"
    and "Abs getwd (filepath_Join [absBase, rel]) = Inr absFinal"
    and "absFinal \<noteq> absBase" and "\<not> HasPrefix absFinal (absBase @ [sep])"
  shows "validateSubdirectoryPath getwd baseDir rel = Inl ''path escapes base directory''"
  using assms by (simp add: validateSubdirectoryPath_def)

lemma validate_accepts:
  assumes "validateSubdirectoryPath getwd baseDir rel = Inr p"
  shows "\<exists>absBase. Abs getwd baseDir = Inr absBase \<and> (HasPrefix p (absBase @ [sep]) \<or> p = absBase)"
  using assms
  by (auto simp: validateSubdirectoryPath_def Let_def split: sum.splits if_splits)

lemma validate_descendant:
  assumes wd: "\<forall>wd. getwd = Inr wd \<longrightarrow> IsAbs wd"
    and rs: "rs \<noteq> []" "\<forall>e \<in> set rs. normal e"
  shows "validateSubdirectoryPath getwd baseDir (strings_Join rs) = Inr p \<longrightarrow>
           (\<exists>absBase. Abs getwd baseDir = Inr absBase \<and> HasPrefix p (absBase @ [sep])
              \<and> p \<noteq> absBase \<and> p = absBase @ sep # strings_Join rs)"
proof
  assume v: "validateSubdirectoryPath getwd baseDir (strings_Join rs) = Inr p"
  from validate_accepts [OF v] obtain absBase where base: "Abs getwd baseDir = Inr absBase"
    by blast
  from validate_explicit [OF base wd rs] v
  have ne: "absBase \<noteq> [sep]" and p: "p = absBase @ sep # strings_Join rs"
    by (auto split: if_splits)
  then have "HasPrefix p (absBase @ [sep])" "p \<noteq> absBase"
    by (simp_all add: HasPrefix_def)
  with base p show "\<exists>absBase. Abs getwd baseDir = Inr absBase \<and> HasPrefix p (absBase @ [sep])
              \<and> p \<noteq> absBase \<and> p = absBase @ sep # strings_Join rs"
    by blast
qed

text \<open>
  Claim C3.  For a subdirectory and a file name that pass \<open>sanitizeSubdirectoryPath\<close>
  and \<open>sanitizeFilename\<close> (and a working directory that is a rooted path, as
  \<^verbatim>\<open>os.Getwd\<close> returns it), every path that \<open>validateSubdirectoryPath\<close> returns for
  the joined target is a proper descendant of the ingest root: it is the absolute root,
  the separator, the subdirectory, the separator and the file name, so it begins with
  the absolute root followed by the separator and differs from the root.  The same holds
  for the file name alone, the target of a request without a subdirectory.  Whenever the
  absolute root is not the root of the file system, such a target is accepted.  And any
  relative target whose absolute resolution is neither the absolute root nor begins with
  the absolute root followed by the separator is rejected with the error
  "path escapes base directory".
\<close>

theorem validateSubdirectoryPath_descendant:
  assumes "sanitizeSubdirectoryPath subdir = Inr safeSubdir"
    and "sanitizeFilename filename = Inr safeFilename"
    and "\<forall>wd. getwd = Inr wd \<longrightarrow> IsAbs wd"
  shows "(\<forall>p. validateSubdirectoryPath getwd baseDir (filepath_Join [safeSubdir, safeFilename]) = Inr p
            \<longrightarrow> (\<exists>absBase. Abs getwd baseDir = Inr absBase \<and> HasPrefix p (absBase @ [sep])
                   \<and> p \<noteq> absBase \<and> p = absBase @ sep # subdir @ sep # filename))
     \<and> (\<forall>p. validateSubdirectoryPath getwd baseDir safeFilename = Inr p
            \<longrightarrow> (\<exists>absBase. Abs getwd baseDir = Inr absBase \<and> HasPrefix p (absBase @ [sep])
                   \<and> p \<noteq> absBase \<and> p = absBase @ sep # filename))
     \<and> (\<forall>absBase. Abs getwd baseDir = Inr absBase \<and> absBase \<noteq> [sep]
            \<longrightarrow> validateSubdirectoryPath getwd baseDir (filepath_Join [safeSubdir, safeFilename])
                  = Inr (absBase @ sep # subdir @ sep # filename))
     \<and> (\<forall>rel absBase absFinal.
            Abs getwd baseDir = Inr absBase
            \<and> Abs getwd (filepath_Join [absBase, rel]) = Inr absFinal
            \<and> absFinal \<noteq> absBase \<and> \<not> HasPrefix absFinal (absBase @ [sep])
            \<longrightarrow> validateSubdirectoryPath getwd baseDir rel = Inl ''path escapes base directory'')"
proof -
  from Join_subdir_filename [OF assms(1,2)] obtain rs where
    rs: "rs \<noteq> []" "\<forall>e \<in> set rs. normal e"
    and j: "filepath_Join [safeSubdir, safeFilename] = strings_Join rs"
      "strings_Join rs = subdir @ sep # filename"
    by blast
  from filename_alone [OF assms(2)] obtain fs where
    fs: "fs \<noteq> []" "\<forall>e \<in> set fs. normal e" and k: "safeFilename = strings_Join fs"
      "strings_Join fs = filename"
    by blast
  have 1: "\<forall>p. validateSubdirectoryPath getwd baseDir (filepath_Join [safeSubdir, safeFilename]) = Inr p
            \<longrightarrow> (\<exists>absBase. Abs getwd baseDir = Inr absBase \<and> HasPrefix p (absBase @ [sep])
                   \<and> p \<noteq> absBase \<and> p = absBase @ sep # subdir @ sep # filename)"
    using validate_descendant [OF assms(3) rs, of baseDir] j by simp
  have 2: "\<forall>p. validateSubdirectoryPath getwd baseDir safeFilename = Inr p
            \<longrightarrow> (\<exists>absBase. Abs getwd baseDir = Inr absBase \<and> HasPrefix p (absBase @ [sep])
                   \<and> p \<noteq> absBase \<and> p = absBase @ sep # filename)"
    using validate_descendant [OF assms(3) fs, of baseDir] k by simp
  have 3: "\<forall>absBase. Abs getwd baseDir = Inr absBase \<and> absBase \<noteq> [sep]
            \<longrightarrow> validateSubdirectoryPath getwd baseDir (filepath_Join [safeSubdir, safeFilename])
                  = Inr (absBase @ sep # subdir @ sep # filename)"
  proof (intro allI impI)
    fix absBase assume a: "Abs getwd baseDir = Inr absBase \<and> absBase \<noteq> [sep]"
    then have base: "Abs getwd baseDir = Inr absBase" by simp
    from validate_explicit [OF base assms(3) rs] a j
    show "validateSubdirectoryPath getwd baseDir (filepath_Join [safeSubdir, safeFilename])
                  = Inr (absBase @ sep # subdir @ sep # filename)"
      by simp
  qed
  have 4: "\<forall>rel absBase absFinal.
            Abs getwd baseDir = Inr absBase
            \<and> Abs getwd (filepath_Join [absBase, rel]) = Inr absFinal
            \<and> absFinal \<noteq> absBase \<and> \<not> HasPrefix absFinal (absBase @ [sep])
            \<longrightarrow> validateSubdirectoryPath getwd baseDir rel = Inl ''path escapes base directory''"
    using validate_rejects by blast
  from 1 2 3 4 show ?thesis by blast
qed

theorem validateSubdirectoryPath_descendant_witness:
  "validateSubdirectoryPath (Inr ''/srv'') ''/data/invoices'' (filepath_Join [''2025/01'', ''a.txt''])
     = Inr ''/data/invoices/2025/01/a.txt''
   \<and> validateSubdirectoryPath (Inr ''/srv'') ''/data/invoices'' ''../../etc/passwd''
     = Inl ''path escapes base directory''"
proof -
  have 1: "sanitizeSubdirectoryPath ''2025/01'' = Inr ''2025/01''"
    by (simp add: sanitizeSubdirectoryPath_def ToSlash_def FromSlash_def IsAbs_def HasPrefix_def
        Clean_def sep_def nul_def)
  have 2: "sanitizeFilename ''a.txt'' = Inr ''a.txt''"
    by (simp add: sanitizeFilename_def Clean_def HasPrefix_def sep_def nul_def backslash_def)
  have 3: "\<forall>wd. (Inr ''/srv'' :: error + string) = Inr wd \<longrightarrow> IsAbs wd"
    by (simp add: IsAbs_def HasPrefix_def sep_def)
  have 4: "Abs (Inr ''/srv'') ''/data/invoices'' = Inr ''/data/invoices''"
    by (simp add: Abs_def IsAbs_def HasPrefix_def Clean_def sep_def)
  have 5: "''/data/invoices'' \<noteq> [sep]" by (simp add: sep_def)
  have 6: "Abs (Inr ''/srv'') (filepath_Join [''/data/invoices'', ''../../etc/passwd''])
      = Inr ''/etc/passwd''"
    by (simp add: Abs_def IsAbs_def HasPrefix_def filepath_Join_def Clean_def sep_def)
  have 7: "''/etc/passwd'' \<noteq> ''/data/invoices''
      \<and> \<not> HasPrefix ''/etc/passwd'' (''/data/invoices'' @ [sep])"
    by (simp add: HasPrefix_def)
  from validateSubdirectoryPath_descendant [OF 1 2 3, of "''/data/invoices''"] 4 5
  have a: "validateSubdirectoryPath (Inr ''/srv'') ''/data/invoices''
        (filepath_Join [''2025/01'', ''a.txt''])
      = Inr (''/data/invoices'' @ sep # ''2025/01'' @ sep # ''a.txt'')"
    by blast
  from validateSubdirectoryPath_descendant [OF 1 2 3, of "''/data/invoices''"] 4 6 7
  have b: "validateSubdirectoryPath (Inr ''/srv'') ''/data/invoices'' ''../../etc/passwd''
      = Inl ''path escapes base directory''"
    by blast
  from a b show ?thesis by (simp add: sep_def)
qed

end
